theory Spec2Isabelle
  imports Main
begin

section \<open>Python strings\<close>

text \<open>
  A Python \<open>str\<close> is modelled as a \<open>string\<close>, one \<open>char\<close> per code point, so that
  \<open>length\<close> is Python's \<open>len\<close>. A \<open>char\<close> has eight bits: the model covers the strings
  whose code points are below 256, and the copyright sign of the footer markers is
  \<open>CHR 0xA9\<close>. The newline is \<open>CHR 0x0A\<close>.
\<close>

definition isspace :: "char \<Rightarrow> bool" where
  \<comment> \<open>\<open>str.isspace\<close> on one code point below 256: tab to carriage return, the four
      separators 0x1C to 0x1F, the space, NEL and the no-break space.\<close>
  "isspace c =
     (let n = (of_char c :: nat)
      in (9 \<le> n \<and> n \<le> 13) \<or> (28 \<le> n \<and> n \<le> 32) \<or> n = 133 \<or> n = 160)"

definition lstrip :: "string \<Rightarrow> string" where
  "lstrip s = dropWhile isspace s"

definition rstrip :: "string \<Rightarrow> string" where
  "rstrip s = rev (dropWhile isspace (rev s))"

definition strip :: "string \<Rightarrow> string" where
  "strip s = lstrip (rstrip s)"

definition startswith :: "string \<Rightarrow> string \<Rightarrow> bool" where
  \<comment> \<open>\<open>s.startswith(p)\<close>\<close>
  "startswith s p = (take (length p) s = p)"

fun find_at :: "nat \<Rightarrow> string \<Rightarrow> string \<Rightarrow> int" where
  "find_at i [] sub = (if sub = [] then int i else - 1)"
| "find_at i (c # cs) sub =
     (if startswith (c # cs) sub then int i else find_at (Suc i) cs sub)"

definition str_find :: "string \<Rightarrow> string \<Rightarrow> int" where
  \<comment> \<open>\<open>s.find(sub)\<close>: the lowest index at which \<open>sub\<close> occurs in \<open>s\<close>, or -1.\<close>
  "str_find s sub = find_at 0 s sub"

definition contains :: "string \<Rightarrow> string \<Rightarrow> bool" where
  \<comment> \<open>\<open>sub in s\<close>\<close>
  "contains s sub = (0 \<le> str_find s sub)"

fun split_nl :: "string \<Rightarrow> string list" where
  \<comment> \<open>\<open>s.split('\n')\<close>: never empty, one more piece than there are newlines.\<close>
  "split_nl [] = [[]]"
| "split_nl (c # cs) =
     (if c = CHR 0x0A then [] # split_nl cs
      else (case split_nl cs of [] \<Rightarrow> [[c]] | l # ls \<Rightarrow> (c # l) # ls))"

fun join_nl :: "string list \<Rightarrow> string" where
  \<comment> \<open>\<open>'\n'.join(ls)\<close>\<close>
  "join_nl [] = []"
| "join_nl [l] = l"
| "join_nl (l # ls) = l @ CHR 0x0A # join_nl ls"

definition lower_char :: "char \<Rightarrow> char" where
  \<comment> \<open>\<open>str.lower\<close> on one code point below 256: A to Z, and the accented capitals
      0xC0 to 0xDE but the multiplication sign 0xD7.\<close>
  "lower_char c =
     (let n = (of_char c :: nat)
      in if (65 \<le> n \<and> n \<le> 90) \<or> (192 \<le> n \<and> n \<le> 222 \<and> n \<noteq> 215)
         then char_of (n + 32) else c)"

definition lower :: "string \<Rightarrow> string" where
  "lower s = map lower_char s"

section \<open>The footer truncation of the content cleaner\<close>

definition footer_markers :: "string list" where
  "footer_markers =
     [''### Was this information helpful?'',
      ''Was this information helpful?'',
      ''Except where otherwise noted, this work is licensed'',
      ''[](https://creativecommons.org/'',
      ''Privacy Statement'',
      ''Legal Notices & Trademarks'',
      ''Report Noncompliance'',
      CHR 0xA9 # '' 2025 Autodesk Inc.'',
      CHR 0xA9 # '' 2024 Autodesk Inc.'',
      CHR 0xA9 # '' 2026 Autodesk Inc.'']"

fun strip_footer_loop :: "string list \<Rightarrow> string \<Rightarrow> string" where
  \<comment> \<open>The \<open>for marker in footer_markers\<close> loop of \<open>_strip_footer\<close>, with its \<open>break\<close>.\<close>
  "strip_footer_loop [] content = content"
| "strip_footer_loop (marker # markers) content =
     (let idx = str_find content marker
      in if idx > 0 then rstrip (take (nat idx) content)
         else strip_footer_loop markers content)"

definition strip_footer :: "string \<Rightarrow> string" where
  \<comment> \<open>\<open>_strip_footer\<close>\<close>
  "strip_footer content = strip_footer_loop footer_markers content"

text \<open>
  Two notions used to state properties of the truncation: an occurrence of a substring at
  an index, and the positive indices that the loop's \<open>find\<close> calls return, in marker
  order. The loop cuts at the head of that list.
\<close>

definition occurs_at :: "string \<Rightarrow> string \<Rightarrow> nat \<Rightarrow> bool" where
  "occurs_at s sub j = (j \<le> length s \<and> take (length sub) (drop j s) = sub)"

definition marker_positions :: "string \<Rightarrow> int list" where
  "marker_positions c = filter ((<) 0) (map (str_find c) footer_markers)"

section \<open>Regular expressions\<close>

text \<open>
  The noise patterns are regular expressions without groups that capture or look around,
  so a pattern is a term of \<open>rx\<close> and matching is by derivatives. Every pattern of
  \<open>NAV_PATTERNS\<close> begins with \<open>^\<close> and ends with \<open>$\<close>, and \<open>pattern.match(line)\<close> is
  applied to a line that holds no newline (the lines come from \<open>split('\n')\<close>): the match
  succeeds exactly when the whole line is in the language of the pattern between its
  anchors, which is what \<open>rx_matches\<close> decides.
\<close>

datatype rx =
    Null
  | Eps
  | Sym "char \<Rightarrow> bool"
  | Seq rx rx
  | Alt rx rx
  | Star rx

fun nullable :: "rx \<Rightarrow> bool" where
  "nullable Null = False"
| "nullable Eps = True"
| "nullable (Sym p) = False"
| "nullable (Seq r s) = (nullable r \<and> nullable s)"
| "nullable (Alt r s) = (nullable r \<or> nullable s)"
| "nullable (Star r) = True"

fun deriv :: "char \<Rightarrow> rx \<Rightarrow> rx" where
  "deriv c Null = Null"
| "deriv c Eps = Null"
| "deriv c (Sym p) = (if p c then Eps else Null)"
| "deriv c (Seq r s) =
     (if nullable r then Alt (Seq (deriv c r) s) (deriv c s) else Seq (deriv c r) s)"
| "deriv c (Alt r s) = Alt (deriv c r) (deriv c s)"
| "deriv c (Star r) = Seq (deriv c r) (Star r)"

fun rx_matches :: "rx \<Rightarrow> string \<Rightarrow> bool" where
  "rx_matches r [] = nullable r"
| "rx_matches r (c # cs) = rx_matches (deriv c r) cs"

definition cat :: "rx list \<Rightarrow> rx" where
  "cat rs = foldr Seq rs Eps"

definition alt :: "rx list \<Rightarrow> rx" where
  "alt rs = foldr Alt rs Null"

definition lit :: "string \<Rightarrow> rx" where
  "lit s = cat (map (\<lambda>c. Sym ((=) c)) s)"

definition plus :: "rx \<Rightarrow> rx" where
  \<comment> \<open>\<open>r+\<close>\<close>
  "plus r = Seq r (Star r)"

definition two_or_more :: "rx \<Rightarrow> rx" where
  \<comment> \<open>\<open>r{2,}\<close>\<close>
  "two_or_more r = Seq r (Seq r (Star r))"

definition ws :: rx where
  \<comment> \<open>\<open>\s\<close>: on \<open>str\<close> patterns the whitespace of \<open>str.isspace\<close>.\<close>
  "ws = Sym isspace"

definition digit :: rx where
  \<comment> \<open>\<open>\d\<close>: below code point 256 the decimal digits are 0 to 9.\<close>
  "digit = Sym (\<lambda>c. 48 \<le> (of_char c :: nat) \<and> (of_char c :: nat) \<le> 57)"

definition upper_AZ :: rx where
  \<comment> \<open>\<open>[A-Z]\<close>\<close>
  "upper_AZ = Sym (\<lambda>c. 65 \<le> (of_char c :: nat) \<and> (of_char c :: nat) \<le> 90)"

definition dot :: rx where
  \<comment> \<open>\<open>.\<close>: any character but a newline.\<close>
  "dot = Sym (\<lambda>c. c \<noteq> CHR 0x0A)"

definition wide :: rx where
  \<comment> \<open>One code point above 255 (a CJK character of a pattern): no \<open>char\<close> is one.\<close>
  "wide = Sym (\<lambda>c. False)"

section \<open>The content cleaner\<close>

definition NAV_PATTERNS :: "rx list" where
  "NAV_PATTERNS =
     [cat [plus digit, lit ''.'', plus ws, lit ''Alias Programmers'', Star dot],
      cat [plus digit, lit ''.'', plus ws, lit ''Adding your plug-in'', Star dot],
      cat [plus digit, lit ''.'', plus ws, upper_AZ, Star dot],
      cat [lit ''Share'', Star ws],
      cat [Star ws, alt [lit ''Email'', lit ''Facebook'', lit ''Twitter'', lit ''LinkedIn''],
           Star ws],
      cat [two_or_more ws,
           alt [lit ''Adding your plug-in'', lit ''Building Options'',
                lit ''Building the included'', lit ''Class reference'',
                lit ''Compiling and linking'', lit ''Implementation Details'',
                lit ''Introduction'', lit ''Plug-in API Examples'',
                lit ''Setting up plug-ins'', lit ''The universe and its objects'',
                lit ''Using OpenAlias'', lit ''Using the API'',
                lit ''Writing a plug-in'', lit ''Alias Installation'',
                lit ''Legacy Getting Started'',
                lit (''Alias What'' @ [CHR 0x27] @ ''s New''),
                lit (''What'' @ [CHR 0x27] @ ''s New in''),
                lit ''Alias Release Notes'', lit ''Tutorials'',
                lit ''Interface Reference'', lit ''Tool Palette Reference'',
                lit ''Menus Reference'', lit ''File Format Reference'',
                lit ''VRED Renderer'', lit ''Live Referencing'', lit ''Alias Dynamo'',
                lit ''Flow Production'', lit ''Form Explorer'', lit ''NavPack Design'',
                lit ''Environment Variables''],
           Star dot],
      cat [lit ''Except where otherwise noted'', Star dot, lit ''Creative Commons'',
           Star dot],
      cat [lit ''Please see the Autodesk Creative Commons'', Star dot],
      cat [lit ''Alias 2026 Help |'', Star dot, lit ''| Autodesk'', Star ws],
      cat [lit ''Alias 2026 Help |'', Star dot],
      cat [Star ws, lit ''Help Home'', Star ws],
      cat [Star ws, lit ''Quick Links'', Star ws],
      cat [Star ws, lit ''Sign In'', Star ws],
      cat [Star ws, lit ''English (US)'', Star ws],
      cat [Star ws, wide, wide, wide, wide, Star ws],
      cat [Star ws, wide, wide, wide, Star ws],
      cat [Star ws, wide, wide, wide, Star ws],
      cat [lit ''Image '', plus digit, lit '':'', Star dot],
      cat [Star ws,
           alt [lit ''Essential Skills'', lit ''Essential Concepts'',
                lit ''The Alias Workspace'', lit ''Keyboard Shortcuts'',
                lit ''Subdivision Modeling''],
           Star dot],
      cat [Star ws, lit (''What'' @ [CHR 0x27] @ ''s New''), Star ws],
      cat [Star ws, lit ''Release Notes'', Star ws]]"

definition is_nav_noise :: "string \<Rightarrow> bool" where
  \<comment> \<open>The inner loop over \<open>NAV_REGEX\<close>: \<open>should_skip\<close>.\<close>
  "is_nav_noise line = list_ex (\<lambda>pattern. rx_matches pattern line) NAV_PATTERNS"

record clean_state =
  in_code_block :: bool
  found_content_start :: bool
  cleaned_lines :: "string list"

definition is_fence_line :: "string \<Rightarrow> bool" where
  \<comment> \<open>\<open>line.strip().startswith('```')\<close>\<close>
  "is_fence_line line = startswith (strip line) ''```''"

definition is_title_line :: "string \<Rightarrow> string \<Rightarrow> bool" where
  "is_title_line page_title stripped =
     (stripped \<noteq> [] \<and>
      (stripped = page_title \<or> stripped = ''# '' @ page_title
       \<or> stripped = ''## '' @ page_title \<or> stripped = ''### '' @ page_title))"

definition is_content_heading :: "string \<Rightarrow> bool" where
  "is_content_heading stripped =
     (startswith stripped ''#'' \<and>
      \<not> list_ex (\<lambda>kw. contains (lower stripped) kw)
           [''help home'', ''quick links'', ''sign in'', ''english''])"

definition keep :: "string \<Rightarrow> clean_state \<Rightarrow> clean_state" where
  \<comment> \<open>\<open>cleaned_lines.append(line)\<close>\<close>
  "keep line st = st\<lparr>cleaned_lines := cleaned_lines st @ [line]\<rparr>"

definition clean_step :: "string \<Rightarrow> clean_state \<Rightarrow> string \<Rightarrow> clean_state" where
  \<comment> \<open>One iteration of the \<open>for line in lines\<close> loop of \<open>clean_content\<close>.\<close>
  "clean_step page_title st line =
     (if is_fence_line line then
        (let st' = st\<lparr>in_code_block := \<not> in_code_block st\<rparr>
         in if found_content_start st' then keep line st' else st')
      else if in_code_block st then
        (if found_content_start st then keep line st else st)
      else if \<not> found_content_start st then
        (let stripped = strip line
         in if is_title_line page_title stripped
            then keep line (st\<lparr>found_content_start := True\<rparr>)
            else if is_content_heading stripped
            then keep line (st\<lparr>found_content_start := True\<rparr>)
            else st)
      else if is_nav_noise line then st
      else keep line st)"

definition clean_init :: clean_state where
  "clean_init = \<lparr>in_code_block = False, found_content_start = False, cleaned_lines = []\<rparr>"

definition clean_loop :: "string \<Rightarrow> string list \<Rightarrow> clean_state" where
  \<comment> \<open>The main pass: the loop over all lines from the initial state.\<close>
  "clean_loop page_title lines = foldl (clean_step page_title) clean_init lines"

definition simple_clean_keywords :: "string list" where
  \<comment> \<open>The keyword list of \<open>_simple_clean\<close>. Its three CJK keywords have code points
      above 255 and occur in no string of the model.\<close>
  "simple_clean_keywords =
     [''Help Home'', ''Quick Links'', ''Sign In'', ''English (US)'',
      ''Creative Commons'', ''Autodesk Creative Commons'', ''Image 2: Alias 2026'']"

definition simple_clean_keeps :: "string \<Rightarrow> bool" where
  "simple_clean_keeps line =
     (let stripped = strip line
      in \<not> list_ex (\<lambda>kw. contains stripped kw) simple_clean_keywords
         \<and> \<not> List.member [''Share'', ''Email'', ''Facebook'', ''Twitter'', ''LinkedIn''] stripped)"

definition simple_clean :: "string \<Rightarrow> string" where
  \<comment> \<open>\<open>_simple_clean\<close>\<close>
  "simple_clean raw_content =
     strip (join_nl (filter simple_clean_keeps (split_nl raw_content)))"

definition clean_content :: "string \<Rightarrow> string \<Rightarrow> string" where
  "clean_content raw_content page_title =
     (if raw_content = [] then []
      else
        (let result = strip (join_nl (cleaned_lines (clean_loop page_title (split_nl raw_content))));
             result = (if length result < 50 \<and> length raw_content > 100
                       then simple_clean raw_content else result)
         in strip_footer result))"

section \<open>The browser-driven scraper\<close>

text \<open>
  The rendered page and its navigation tree are outside the program: a function of the
  scraper takes what the browser would answer as a value. A call into the browser that can
  raise returns a sum, \<open>Inl\<close> the exception.
\<close>

datatype py_exception = PyException string

subsection \<open>Expanding the navigation tree\<close>

text \<open>
  The tree is a state \<open>'s\<close> that clicks and waiting change, and every call into it is a
  field of \<open>nav_tree\<close>. \<open>find_api_section\<close> is the two \<open>query_selector\<close> calls that look
  for the API section, by its \<open>data-id\<close> and then by its text. \<open>open_api_section\<close> is
  the reading of \<open>aria-expanded\<close> and the click on the section's own button, giving the
  tree after it and the exception when one of its calls raised. \<open>query_in_section\<close> and
  \<open>query_in_page\<close> are the \<open>query_selector_all\<close> for collapsed items, inside the API
  section and in the whole page; they are awaited outside any \<open>try\<close> of the loops, so
  their exception leaves the loop. \<open>click\<close> gives the tree after a click and whether the
  click returned (the loops swallow its exception), \<open>settle\<close> is what the tree does during
  a sleep.
\<close>

record ('s, 'b) nav_tree =
  find_api_section :: "'s \<Rightarrow> py_exception + bool"
  open_api_section :: "'s \<Rightarrow> 's \<times> py_exception option"
  query_in_section :: "'s \<Rightarrow> py_exception + 'b list"
  query_in_page :: "'s \<Rightarrow> py_exception + 'b list"
  click :: "'b \<Rightarrow> 's \<Rightarrow> 's \<times> bool"
  settle :: "'s \<Rightarrow> 's"

record 's expansion =
  tree :: 's
  passes :: nat
  total_expanded :: nat
  raised :: "py_exception option"

fun click_all :: "('s, 'b) nav_tree \<Rightarrow> 'b list \<Rightarrow> 's expansion \<Rightarrow> 's expansion" where
  \<comment> \<open>\<open>for btn in collapsed_items: try: click, count, sleep; except: pass\<close>\<close>
  "click_all env [] st = st"
| "click_all env (btn # btns) st =
     (case click env btn (tree st) of
        (s', True) \<Rightarrow>
          click_all env btns (st\<lparr>tree := settle env s', total_expanded := total_expanded st + 1\<rparr>)
      | (s', False) \<Rightarrow> click_all env btns (st\<lparr>tree := s'\<rparr>))"

definition expand_pass :: "('s, 'b) nav_tree \<Rightarrow> 'b list \<Rightarrow> 's expansion \<Rightarrow> 's expansion" where
  \<comment> \<open>The rest of an iteration whose query found \<open>collapsed_items\<close>: the clicks, then
      the sleep.\<close>
  "expand_pass env collapsed_items st =
     (let st2 = click_all env collapsed_items (st\<lparr>passes := passes st + 1\<rparr>)
      in st2\<lparr>tree := settle env (tree st2)\<rparr>)"

fun expand_loop ::
    "('s, 'b) nav_tree \<Rightarrow> ('s \<Rightarrow> py_exception + 'b list) \<Rightarrow> nat \<Rightarrow> 's expansion \<Rightarrow> 's expansion" where
  \<comment> \<open>\<open>for depth in range(n)\<close> with the query \<open>q\<close>: \<open>passes\<close> counts the iterations
      begun, each one query; an empty answer is the \<open>break\<close>, an exception of the query
      leaves the function.\<close>
  "expand_loop env q 0 st = st"
| "expand_loop env q (Suc n) st =
     (case q (tree st) of
        Inl e \<Rightarrow> st\<lparr>passes := passes st + 1, raised := Some e\<rparr>
      | Inr collapsed_items \<Rightarrow>
          if collapsed_items = [] then st\<lparr>passes := passes st + 1\<rparr>
          else expand_loop env q n (expand_pass env collapsed_items st))"

definition expand_all_api_subsections ::
    "('s, 'b) nav_tree \<Rightarrow> nat \<Rightarrow> 's \<Rightarrow> 's expansion" where
  \<comment> \<open>\<open>_expand_all_api_subsections(page, api_section, max_depth)\<close>\<close>
  "expand_all_api_subsections env max_depth s =
     expand_loop env (query_in_section env) max_depth
       \<lparr>tree = s, passes = 0, total_expanded = 0, raised = None\<rparr>"

definition max_depth_default :: nat where
  \<comment> \<open>\<open>max_depth: int = 20\<close>\<close>
  "max_depth_default = 20"

definition expand_all_sections ::
    "('s, 'b) nav_tree \<Rightarrow> nat \<Rightarrow> 's \<Rightarrow> 's expansion" where
  \<comment> \<open>\<open>_expand_all_sections(page, max_iterations)\<close>\<close>
  "expand_all_sections env max_iterations s =
     expand_loop env (query_in_page env) max_iterations
       \<lparr>tree = s, passes = 0, total_expanded = 0, raised = None\<rparr>"

definition max_iterations_default :: nat where
  \<comment> \<open>\<open>max_iterations: int = 30\<close>\<close>
  "max_iterations_default = 30"

record 's expansion_phase =
  api_expansion :: "'s expansion option"
  fallback_expansion :: "'s expansion option"
  handler_expansion :: "'s expansion option"

definition expand_phase :: "('s, 'b) nav_tree \<Rightarrow> 's \<Rightarrow> 's expansion_phase" where
  \<comment> \<open>The \<open>try\<close> of \<open>_discover_api_pages\<close> that expands the tree, each expansion called
      with its default cap: the expansion inside the API section when the section is found,
      the whole-tree expansion when it is not, and the whole-tree expansion of the
      \<open>except\<close> handler when anything inside the \<open>try\<close> raised.\<close>
  "expand_phase env s =
     (case find_api_section env s of
        Inl e \<Rightarrow>
          \<lparr>api_expansion = None, fallback_expansion = None,
            handler_expansion = Some (expand_all_sections env max_iterations_default s)\<rparr>
      | Inr True \<Rightarrow>
          (case open_api_section env s of
             (s1, Some e) \<Rightarrow>
               \<lparr>api_expansion = None, fallback_expansion = None,
                 handler_expansion = Some (expand_all_sections env max_iterations_default s1)\<rparr>
           | (s1, None) \<Rightarrow>
               (let r = expand_all_api_subsections env max_depth_default s1
                in \<lparr>api_expansion = Some r, fallback_expansion = None,
                     handler_expansion =
                       (case raised r of
                          None \<Rightarrow> None
                        | Some e \<Rightarrow>
                            Some (expand_all_sections env max_iterations_default (tree r)))\<rparr>))
      | Inr False \<Rightarrow>
          (let r = expand_all_sections env max_iterations_default s
           in \<lparr>api_expansion = None, fallback_expansion = Some r,
                handler_expansion =
                  (case raised r of
                     None \<Rightarrow> None
                   | Some e \<Rightarrow>
                       Some (expand_all_sections env max_iterations_default (tree r)))\<rparr>))"

text \<open>
  Two notions to state when a loop ends. \<open>full_pass\<close> is the tree after one whole iteration
  from a tree on which the query finds collapsed items; \<open>finds_none_first_at q s k\<close> says
  that, from the tree \<open>s\<close>, the query finds collapsed items in each of the first \<open>k\<close>
  passes and none in the pass after them.
\<close>

definition full_pass :: "('s, 'b) nav_tree \<Rightarrow> ('s \<Rightarrow> py_exception + 'b list) \<Rightarrow> 's \<Rightarrow> 's" where
  "full_pass env q s =
     (case q s of
        Inl e \<Rightarrow> s
      | Inr collapsed_items \<Rightarrow>
          tree (expand_pass env collapsed_items
                  \<lparr>tree = s, passes = 0, total_expanded = 0, raised = None\<rparr>))"

definition finds_some :: "('s \<Rightarrow> py_exception + 'b list) \<Rightarrow> 's \<Rightarrow> bool" where
  "finds_some q s = (case q s of Inl e \<Rightarrow> False | Inr collapsed_items \<Rightarrow> collapsed_items \<noteq> [])"

definition finds_none_first_at ::
    "('s, 'b) nav_tree \<Rightarrow> ('s \<Rightarrow> py_exception + 'b list) \<Rightarrow> 's \<Rightarrow> nat \<Rightarrow> bool" where
  "finds_none_first_at env q s k =
     (list_all (\<lambda>j. finds_some q ((full_pass env q ^^ j) s)) [0..<k]
      \<and> q ((full_pass env q ^^ k) s) = Inr [])"

subsection \<open>Collecting the page links\<close>

definition BASE_URL :: string where
  "BASE_URL = ''https://help.autodesk.com/view/ALIAS/2026/ENU/''"

definition API_SECTION_GUID :: string where
  "API_SECTION_GUID = ''GUID-0278C25C-730E-49AE-9125-EBCCA7434FF5''"

record page_link =
  url :: string
  title :: string
  guid :: string

record anchor =
  href :: "py_exception + string option"
  inner_text :: "py_exception + string"

definition is_guid_char :: "char \<Rightarrow> bool" where
  \<comment> \<open>\<open>[A-F0-9a-f-]\<close>\<close>
  "is_guid_char c =
     (let n = (of_char c :: nat)
      in (65 \<le> n \<and> n \<le> 70) \<or> (48 \<le> n \<and> n \<le> 57) \<or> (97 \<le> n \<and> n \<le> 102) \<or> n = 45)"

fun guid_search :: "string \<Rightarrow> string option" where
  \<comment> \<open>\<open>re.search(r'guid=(GUID-[A-F0-9a-f-]+)', s)\<close> and its group 1: the leftmost
      position that matches, the class repeated greedily.\<close>
  "guid_search [] = None"
| "guid_search (c # cs) =
     (let run = takeWhile is_guid_char (drop 10 (c # cs))
      in if startswith (c # cs) ''guid=GUID-'' \<and> run \<noteq> []
         then Some (''GUID-'' @ run)
         else guid_search cs)"

record discovery =
  visited_guids :: "string set"
  pages :: "page_link list"

definition discover_step :: "discovery \<Rightarrow> anchor \<Rightarrow> discovery" where
  \<comment> \<open>One iteration of \<open>for link in links\<close> of \<open>_discover_api_pages\<close>; an exception
      goes to \<open>continue\<close>. \<open>hs\<close> is \<open>href or ""\<close>, which is \<open>href\<close> where the search
      has matched.\<close>
  "discover_step st link =
     (case href link of
        Inl e \<Rightarrow> st
      | Inr h \<Rightarrow>
         (case inner_text link of
            Inl e \<Rightarrow> st
          | Inr t \<Rightarrow>
             (let title = (if t \<noteq> [] then strip t else []);
                  hs = (case h of None \<Rightarrow> [] | Some s \<Rightarrow> s)
              in if title = [] then st
                 else
                   (case guid_search hs of
                      None \<Rightarrow> st
                    | Some g \<Rightarrow>
                       if g \<in> visited_guids st then st
                       else
                         (let full_url =
                                (if startswith hs ''http'' then hs
                                 else BASE_URL @ ''?guid='' @ g)
                          in st\<lparr>visited_guids := insert g (visited_guids st),
                                pages := pages st @
                                  [\<lparr>url = full_url, title = title, guid = g\<rparr>]\<rparr>)))))"

definition discover_links :: "string set \<Rightarrow> anchor list \<Rightarrow> discovery" where
  \<comment> \<open>The loop from \<open>self.visited_guids\<close> as it stands and \<open>pages = []\<close>.\<close>
  "discover_links visited links =
     foldl discover_step \<lparr>visited_guids = visited, pages = []\<rparr> links"

definition link_entry :: "anchor \<Rightarrow> page_link option" where
  \<comment> \<open>The entry an anchor stands for, before deduplication: none when a read raises,
      the stripped title is empty or the href holds no identifier.\<close>
  "link_entry link =
     (case (href link, inner_text link) of
        (Inr h, Inr t) \<Rightarrow>
          (let title = (if t \<noteq> [] then strip t else []);
               hs = (case h of None \<Rightarrow> [] | Some s \<Rightarrow> s)
           in if title = [] then None
              else (case guid_search hs of
                      None \<Rightarrow> None
                    | Some g \<Rightarrow>
                        Some \<lparr>url = (if startswith hs ''http'' then hs
                                     else BASE_URL @ ''?guid='' @ g),
                              title = title, guid = g\<rparr>))
      | _ \<Rightarrow> None)"

subsection \<open>Extracting the content of a page\<close>

record element =
  element_text :: "py_exception + string"

record page_dom =
  query_selector :: "string \<Rightarrow> py_exception + element option"
  evaluate_fallback :: "py_exception + string option"

fun sub_runs :: "char \<Rightarrow> nat \<Rightarrow> string \<Rightarrow> nat \<Rightarrow> string \<Rightarrow> string" where
  \<comment> \<open>\<open>re.sub\<close> of \<open>c{n,}\<close> by \<open>repl\<close>: \<open>k\<close> is the length of the run of \<open>c\<close> read so
      far; a maximal run of at least \<open>n\<close> becomes \<open>repl\<close>, a shorter one stays.\<close>
  "sub_runs c n repl k [] = (if n \<le> k then repl else replicate k c)"
| "sub_runs c n repl k (x # xs) =
     (if x = c then sub_runs c n repl (Suc k) xs
      else (if n \<le> k then repl else replicate k c) @ x # sub_runs c n repl 0 xs)"

definition normalize_text :: "string \<Rightarrow> string" where
  \<comment> \<open>\<open>re.sub(r'\n{3,}', '\n\n', text)\<close>, \<open>re.sub(r' {2,}', ' ', text)\<close>, \<open>strip()\<close>\<close>
  "normalize_text text =
     strip (sub_runs CHR '' '' 2 '' '' 0
              (sub_runs CHR 0x0A 3 [CHR 0x0A, CHR 0x0A] 0 text))"

definition selectors :: "string list" where
  "selectors = [''.body_content'', ''#body-content'', ''.caas_body'', ''article'', ''main'']"

definition extract_fallback :: "page_dom \<Rightarrow> string" where
  \<comment> \<open>The second \<open>try\<close> of \<open>_extract_content\<close>: the script's answer, when it is a
      non-empty string.\<close>
  "extract_fallback page =
     (case evaluate_fallback page of
        Inl e \<Rightarrow> []
      | Inr None \<Rightarrow> []
      | Inr (Some content) \<Rightarrow> if content \<noteq> [] then normalize_text content else [])"

fun extract_loop :: "page_dom \<Rightarrow> string list \<Rightarrow> string" where
  \<comment> \<open>\<open>for selector in selectors\<close>, then the fallback.\<close>
  "extract_loop page [] = extract_fallback page"
| "extract_loop page (selector # rest) =
     (case query_selector page selector of
        Inl e \<Rightarrow> extract_loop page rest
      | Inr None \<Rightarrow> extract_loop page rest
      | Inr (Some el) \<Rightarrow>
         (case element_text el of
            Inl e \<Rightarrow> extract_loop page rest
          | Inr text \<Rightarrow>
             if text \<noteq> [] \<and> length text > 100 then normalize_text text
             else extract_loop page rest))"

definition extract_content :: "page_dom \<Rightarrow> string" where
  \<comment> \<open>\<open>_extract_content\<close>\<close>
  "extract_content page = extract_loop page selectors"

definition qualifies :: "page_dom \<Rightarrow> string \<Rightarrow> bool" where
  \<comment> \<open>The selector is present, its text can be read and is longer than 100 characters.\<close>
  "qualifies page selector =
     (case query_selector page selector of
        Inr (Some el) \<Rightarrow> (case element_text el of Inr text \<Rightarrow> length text > 100 | Inl e \<Rightarrow> False)
      | _ \<Rightarrow> False)"

subsection \<open>Scraping one page\<close>

record scraped_page = page_link +
  content :: string
  scraped_at :: string

record scraper =
  scraped_pages :: "scraped_page list"
  fetched :: "string list"

record browser =
  goto :: "string \<Rightarrow> py_exception + page_dom"
  nav_anchors :: "anchor list"

definition scrape_page :: "browser \<Rightarrow> string \<Rightarrow> scraper \<Rightarrow> page_link \<Rightarrow> scraper" where
  \<comment> \<open>\<open>_scrape_page\<close>. \<open>goto\<close> is the navigation with its waits, giving the rendered
      page or an exception; \<open>fetched\<close> logs the navigations; \<open>now\<close> is the clock.\<close>
  "scrape_page b now st link_info =
     (let st1 = st\<lparr>fetched := fetched st @ [url link_info]\<rparr>
      in case goto b (url link_info) of
           Inl e \<Rightarrow> st1
         | Inr page \<Rightarrow>
            (let content = extract_content page
             in if content \<noteq> [] \<and> length content > 50
                then st1\<lparr>scraped_pages := scraped_pages st1 @
                       [\<lparr>url = url link_info, title = title link_info, guid = guid link_info,
                         content = content, scraped_at = now\<rparr>]\<rparr>
                else st1))"

subsection \<open>Notions and example pages for the properties\<close>

text \<open>
  \<open>first_occurrences\<close> is deduplication by identifier as the specification words it: of
  the entries whose identifier is not yet in the discovery set, the first occurrence of
  each identifier is kept, in order.
\<close>

fun first_occurrences :: "string set \<Rightarrow> page_link list \<Rightarrow> page_link list" where
  "first_occurrences V [] = []"
| "first_occurrences V (p # ps) =
     (if guid p \<in> V then first_occurrences V ps
      else p # first_occurrences (insert (guid p) V) ps)"

text \<open>
  A navigation tree that always shows one collapsed node, and one whose state is the
  number of nested levels still collapsed, a click opening one; a page that has none of the
  selectors and whose fallback script answers \<open>text\<close>; a browser that renders one page for
  every address; a page that has the listed selectors with the listed texts and whose
  fallback script raises; five anchors of a navigation tree.
\<close>

definition env_always :: "(unit, unit) nav_tree" where
  "env_always =
     \<lparr>find_api_section = (\<lambda>s. Inr False), open_api_section = (\<lambda>s. (s, None)),
      query_in_section = (\<lambda>s. Inr [()]), query_in_page = (\<lambda>s. Inr [()]),
      click = (\<lambda>b s. (s, True)), settle = (\<lambda>s. s)\<rparr>"

definition env_levels :: "(nat, unit) nav_tree" where
  "env_levels =
     \<lparr>find_api_section = (\<lambda>s. Inr True), open_api_section = (\<lambda>s. (s, None)),
      query_in_section = (\<lambda>s. Inr (if s = 0 then [] else [()])),
      query_in_page = (\<lambda>s. Inr (if s = 0 then [] else [()])),
      click = (\<lambda>b s. (s - 1, True)), settle = (\<lambda>s. s)\<rparr>"

definition page_with_fallback :: "string \<Rightarrow> page_dom" where
  "page_with_fallback text = \<lparr>query_selector = (\<lambda>selector. Inr None), evaluate_fallback = Inr (Some text)\<rparr>"

definition browser_showing :: "page_dom \<Rightarrow> browser" where
  "browser_showing page = \<lparr>goto = (\<lambda>u. Inr page), nav_anchors = []\<rparr>"

definition page_of_selectors :: "(string \<times> string) list \<Rightarrow> page_dom" where
  "page_of_selectors texts =
     \<lparr>query_selector = (\<lambda>selector. Inr (map_option (\<lambda>t. \<lparr>element_text = Inr t\<rparr>) (map_of texts selector))),
      evaluate_fallback = Inl (PyException ''timeout'')\<rparr>"

definition example_anchors :: "anchor list" where
  "example_anchors =
     [\<lparr>href = Inr (Some ''?guid=GUID-A1''), inner_text = Inr '' One ''\<rparr>,
      \<lparr>href = Inr (Some ''http://x/?guid=GUID-A1''), inner_text = Inr ''Dup''\<rparr>,
      \<lparr>href = Inr (Some ''?guid=GUID-B2''), inner_text = Inr ''  ''\<rparr>,
      \<lparr>href = Inr None, inner_text = Inr ''x''\<rparr>,
      \<lparr>href = Inr (Some ''http://x/?guid=GUID-B2''), inner_text = Inr ''Two''\<rparr>]"

section \<open>The corpus store and the two orchestrators\<close>

text \<open>
  A directory of the store is a list of named files, in the order in which the file system
  lists them; a file that parses holds a page object or an index object, each key present
  or absent. File names are the identifiers followed by \<open>.json\<close>, taken as they are.
\<close>

record json_page =
  json_guid :: "string option"
  json_title :: "string option"
  json_url :: "string option"
  json_raw_content :: "string option"
  json_content :: "string option"
  json_has_code_blocks :: "bool option"
  json_scraped_at :: "string option"

record index_entry =
  entry_guid :: string
  entry_title :: string
  entry_url :: string
  entry_has_code_blocks :: "bool option"
  entry_content_length :: "nat option"
  entry_error :: "string option"

record index_json =
  index_source :: "string option"
  total_pages :: nat
  pages_scraped :: "nat option"
  index_scraped_at :: string
  index_pages :: "index_entry list"

datatype json_file = PageFile json_page | IndexFile index_json | NotJson

type_synonym directory = "(string \<times> json_file) list"

fun write_file :: "string \<Rightarrow> json_file \<Rightarrow> directory \<Rightarrow> directory" where
  \<comment> \<open>\<open>open(path, 'w')\<close> and \<open>json.dump\<close>: the file is replaced, or created.\<close>
  "write_file name f [] = [(name, f)]"
| "write_file name f ((n, g) # d) =
     (if n = name then (name, f) # d else (n, g) # write_file name f d)"





subsection \<open>The browser-driven orchestrator\<close>

definition save_results :: "string \<Rightarrow> scraped_page list \<Rightarrow> directory \<Rightarrow> directory" where
  \<comment> \<open>\<open>_save_results\<close>: one file per page of this run, then the index of this run's
      pages.\<close>
  "save_results now scraped d =
     write_file ''index.json''
       (IndexFile
          \<lparr>index_source = None, total_pages = length scraped, pages_scraped = None,
            index_scraped_at = now,
            index_pages =
              map (\<lambda>p. \<lparr>entry_guid = guid p, entry_title = title p, entry_url = url p,
                         entry_has_code_blocks = None, entry_content_length = None,
                         entry_error = None\<rparr>) scraped\<rparr>)
       (foldl (\<lambda>d p. write_file (guid p @ ''.json'')
                  (PageFile
                     \<lparr>json_guid = Some (guid p), json_title = Some (title p),
                       json_url = Some (url p), json_raw_content = None,
                       json_content = Some (content p), json_has_code_blocks = None,
                       json_scraped_at = Some (scraped_at p)\<rparr>) d)
          d scraped)"

definition run :: "browser \<Rightarrow> bool \<Rightarrow> string \<Rightarrow> directory
    \<Rightarrow> py_exception + directory \<times> string list" where
  \<comment> \<open>\<open>AutodeskDocsScraper.run\<close> on a new scraper: the directory after the run and the
      addresses fetched. \<open>nav_anchors\<close> are the anchors that \<open>_discover_api_pages\<close>
      finds once the tree is expanded. An exception of the first navigation leaves the
      \<open>try\<close> and nothing is saved.\<close>
  "run b test_mode now d =
     (let start_url = BASE_URL @ ''?guid='' @ API_SECTION_GUID
      in case goto b start_url of
           Inl e \<Rightarrow> Inl e
         | Inr start_page \<Rightarrow>
            (let page_links = pages (discover_links {} (nav_anchors b));
                 page_links = (if test_mode then take 5 page_links else page_links);
                 st = foldl (scrape_page b now)
                        \<lparr>scraped_pages = [], fetched = [start_url]\<rparr> page_links
             in Inr (save_results now (scraped_pages st) d, fetched st)))"

subsection \<open>The batch orchestrator over the extraction API\<close>















subsection \<open>Notions and examples for the properties of the store\<close>

definition manifest_entries :: "directory \<Rightarrow> index_entry list option" where
  \<comment> \<open>The entries of \<open>index.json\<close>, when the directory has one.\<close>
  "manifest_entries d =
     (case map_of d ''index.json'' of
        Some (IndexFile i) \<Rightarrow> Some (index_pages i)
      | _ \<Rightarrow> None)"




definition run_links :: "browser \<Rightarrow> bool \<Rightarrow> page_link list" where
  \<comment> \<open>The links that \<open>run\<close> scrapes: \<open>page_links\<close> after the cut of the test mode.\<close>
  "run_links b test_mode =
     (let page_links = pages (discover_links {} (nav_anchors b))
      in if test_mode then take 5 page_links else page_links)"

definition kept_pages :: "browser \<Rightarrow> string \<Rightarrow> page_link \<Rightarrow> scraped_page list" where
  \<comment> \<open>What \<open>_scrape_page\<close> appends to \<open>self.scraped_pages\<close> for one link.\<close>
  "kept_pages b now link_info =
     scraped_pages (scrape_page b now \<lparr>scraped_pages = [], fetched = []\<rparr> link_info)"

definition browser_of_text :: "string \<Rightarrow> browser" where
  \<comment> \<open>A site of one page, whose extracted content is \<open>text\<close>.\<close>
  "browser_of_text text =
     \<lparr>goto = (\<lambda>u. Inr (page_with_fallback text)),
      nav_anchors = [\<lparr>href = Inr (Some ''http://x/?guid=GUID-A1''), inner_text = Inr ''One''\<rparr>]\<rparr>"




section \<open>Properties of \<open>str.find\<close>\<close>

lemma occurs_at_Cons_Suc: "occurs_at (c # cs) sub (Suc j) = occurs_at cs sub j"
  by (simp add: occurs_at_def)

lemma occurs_at_0: "occurs_at s sub 0 = startswith s sub"
  by (simp add: occurs_at_def startswith_def)

lemma find_at_spec:
  "(find_at i s sub = - 1 \<and> (\<forall>k. \<not> occurs_at s sub k)) \<or>
   (\<exists>j. find_at i s sub = int (i + j) \<and> occurs_at s sub j \<and> (\<forall>k<j. \<not> occurs_at s sub k))"
proof (induction s arbitrary: i)
  case Nil
  show ?case
  proof (cases "sub = []")
    case True
    then have "find_at i [] sub = int (i + 0) \<and> occurs_at [] sub 0" by (simp add: occurs_at_def)
    then show ?thesis by blast
  next
    case False
    then show ?thesis by (auto simp: occurs_at_def)
  qed
next
  case (Cons c cs)
  show ?case
  proof (cases "startswith (c # cs) sub")
    case True
    then have "find_at i (c # cs) sub = int (i + 0) \<and> occurs_at (c # cs) sub 0"
      by (simp add: occurs_at_0)
    then show ?thesis by blast
  next
    case False
    note ns = this
    from Cons.IH [of "Suc i"] show ?thesis
    proof
      assume a: "find_at (Suc i) cs sub = - 1 \<and> (\<forall>k. \<not> occurs_at cs sub k)"
      have "\<not> occurs_at (c # cs) sub k" for k
        using a ns by (cases k) (simp_all add: occurs_at_0 occurs_at_Cons_Suc)
      with a ns show ?thesis by simp
    next
      assume "\<exists>j. find_at (Suc i) cs sub = int (Suc i + j) \<and> occurs_at cs sub j \<and> (\<forall>k<j. \<not> occurs_at cs sub k)"
      then obtain j where j: "find_at (Suc i) cs sub = int (Suc i + j)" "occurs_at cs sub j"
        "\<forall>k<j. \<not> occurs_at cs sub k" by blast
      have "\<not> occurs_at (c # cs) sub k" if "k < Suc j" for k
        using that j(3) ns by (cases k) (simp_all add: occurs_at_0 occurs_at_Cons_Suc)
      moreover have "find_at i (c # cs) sub = int (i + Suc j)" using ns j(1) by simp
      moreover have "occurs_at (c # cs) sub (Suc j)" using j(2) by (simp add: occurs_at_Cons_Suc)
      ultimately show ?thesis by blast
    qed
  qed
qed

lemma str_find_spec:
  "(str_find s sub = - 1 \<and> (\<forall>k. \<not> occurs_at s sub k)) \<or>
   (\<exists>j. str_find s sub = int j \<and> occurs_at s sub j \<and> (\<forall>k<j. \<not> occurs_at s sub k))"
  using find_at_spec [of 0 s sub] by (simp add: str_find_def)

lemma str_find_pos_iff:
  "0 < str_find s sub \<longleftrightarrow> (\<exists>j>0. occurs_at s sub j) \<and> \<not> occurs_at s sub 0"
proof -
  from str_find_spec [of s sub] show ?thesis
  proof
    assume "str_find s sub = - 1 \<and> (\<forall>k. \<not> occurs_at s sub k)"
    then show ?thesis by simp
  next
    assume "\<exists>j. str_find s sub = int j \<and> occurs_at s sub j \<and> (\<forall>k<j. \<not> occurs_at s sub k)"
    then obtain j where j: "str_find s sub = int j" "occurs_at s sub j" "\<forall>k<j. \<not> occurs_at s sub k"
      by blast
    show ?thesis
    proof (cases "j = 0")
      case True
      with j show ?thesis by simp
    next
      case False
      with j show ?thesis by auto
    qed
  qed
qed


section \<open>Properties of the footer truncation\<close>

lemma strip_footer_loop_none:
  "filter ((<) 0) (map (str_find c) ms) = [] \<Longrightarrow> strip_footer_loop ms c = c"
  by (induction ms) (auto split: if_splits)

lemma strip_footer_loop_cut:
  "filter ((<) 0) (map (str_find c) ms) = p # ps \<Longrightarrow>
   strip_footer_loop ms c = rstrip (take (nat p) c)"
  by (induction ms) (auto split: if_splits)

lemma strip_footer_loop_skip:
  "str_find c m \<le> 0 \<Longrightarrow>
   strip_footer_loop (pre @ m # post) c = strip_footer_loop (pre @ post) c"
  by (induction pre) (auto simp: Let_def)

lemma rstrip_prefix: "\<exists>k. rstrip s = take k s"
proof -
  have "rev (takeWhile isspace (rev s) @ dropWhile isspace (rev s)) = s"
    by simp
  then have "rstrip s @ rev (takeWhile isspace (rev s)) = s"
    unfolding rstrip_def rev_append .
  then have "take (length (rstrip s)) s = rstrip s"
    by (metis append_eq_conv_conj)
  then show ?thesis by metis
qed

lemma occurs_at_take:
  assumes "occurs_at (take k c) m j"
  shows "occurs_at c m j \<and> j + length m \<le> k"
proof -
  from assms have j: "j \<le> length (take k c)"
    and t: "take (length m) (drop j (take k c)) = m"
    by (simp_all add: occurs_at_def)
  from t have "length (take (length m) (drop j (take k c))) = length m"
    by simp
  then have "length m \<le> length (drop j (take k c))"
    by (simp only: length_take)
  with j have le: "j + length m \<le> k" "j + length m \<le> length c"
    by (auto simp: min_def split: if_splits)
  have "drop j (take k c) = take (k - j) (drop j c)" by (simp add: drop_take)
  with t le have "take (length m) (drop j c) = m" by (simp add: min_def split: if_splits)
  with le show ?thesis by (simp add: occurs_at_def)
qed

lemma occurs_at_0_take:
  "occurs_at c m 0 \<Longrightarrow> length m \<le> k \<Longrightarrow> occurs_at (take k c) m 0"
  by (simp add: occurs_at_def min_def)

lemma no_marker_after_cut:
  assumes p: "0 < p" and least: "0 < str_find c m \<Longrightarrow> p \<le> str_find c m"
  shows "\<not> 0 < str_find (rstrip (take (nat p) c)) m"
proof
  assume pos: "0 < str_find (rstrip (take (nat p) c)) m"
  obtain k0 where "rstrip (take (nat p) c) = take k0 (take (nat p) c)"
    using rstrip_prefix by blast
  then have r: "rstrip (take (nat p) c) = take (min k0 (nat p)) c" by simp
  define k where "k = min k0 (nat p)"
  have kp: "k \<le> nat p" by (simp add: k_def)
  from pos r obtain j where j: "0 < j" "occurs_at (take k c) m j" and n0: "\<not> occurs_at (take k c) m 0"
    unfolding k_def by (auto simp: str_find_pos_iff)
  from occurs_at_take [OF j(2)] have oc: "occurs_at c m j" and jk: "j + length m \<le> k" by simp_all
  have "\<not> occurs_at c m 0"
    using n0 occurs_at_0_take [of c m k] jk by auto
  with oc j(1) have fpos: "0 < str_find c m" by (auto simp: str_find_pos_iff)
  from str_find_spec [of c m] fpos obtain q where q: "str_find c m = int q" "\<forall>i<q. \<not> occurs_at c m i"
    by auto
  from q(2) oc have "q \<le> j" by (meson not_le_imp_less)
  moreover from least [OF fpos] q(1) have "nat p \<le> q" by simp
  ultimately have "length m = 0" using jk kp by linarith
  then have "occurs_at (take k c) m 0" by (simp add: occurs_at_def)
  with n0 show False by simp
qed

text \<open>
  Claim C8, as stated, fails: the loop cuts at the first marker of the list that occurs at
  a positive index, not at the marker occurring earliest in the content, so a marker
  listed later can survive before the cut and a second pass cuts again. Here the first
  pass cuts at \<open>Was this information helpful?\<close> and the second at \<open>Privacy Statement\<close>.
\<close>

theorem strip_footer_not_idempotent:
  "strip_footer (strip_footer ''a Privacy Statement b Was this information helpful?'')
     \<noteq> strip_footer ''a Privacy Statement b Was this information helpful?''"
  by code_simp

text \<open>
  Claim C8, amended: footer truncation is idempotent on every content whose cut is at the
  earliest marker occurrence, that is, where the position the loop cuts at (the head of
  \<open>marker_positions\<close>) is not after the first positive-index occurrence of any listed
  marker. A content with no marker at a positive index is the case of the empty list.
\<close>

theorem strip_footer_idempotent_at_earliest_marker:
  assumes "\<forall>q \<in> set (marker_positions c). hd (marker_positions c) \<le> q"
  shows "strip_footer (strip_footer c) = strip_footer c"
proof (cases "marker_positions c")
  case Nil
  then show ?thesis
    by (simp add: strip_footer_def marker_positions_def strip_footer_loop_none)
next
  case (Cons p ps)
  then have cut: "strip_footer c = rstrip (take (nat p) c)"
    by (simp add: strip_footer_def marker_positions_def strip_footer_loop_cut)
  from Cons have "p \<in> set (marker_positions c)" by simp
  then have p: "0 < p" by (auto simp: marker_positions_def)
  have "\<not> 0 < str_find (rstrip (take (nat p) c)) m" if "m \<in> set footer_markers" for m
  proof (rule no_marker_after_cut [OF p])
    assume "0 < str_find c m"
    with that have "str_find c m \<in> set (marker_positions c)"
      by (simp add: marker_positions_def)
    with assms Cons show "p \<le> str_find c m" by auto
  qed
  then have "filter ((<) 0) (map (str_find (strip_footer c)) footer_markers) = []"
    by (simp add: cut filter_empty_conv)
  then show ?thesis
    by (simp add: strip_footer_def strip_footer_loop_none)
qed

theorem strip_footer_idempotent_at_earliest_marker_witness:
  "marker_positions ''Intro.  ### Was this information helpful? Privacy Statement'' = [8, 12, 42]
   \<and> strip_footer ''Intro.  ### Was this information helpful? Privacy Statement'' = ''Intro.''
   \<and> strip_footer (strip_footer ''Intro.  ### Was this information helpful? Privacy Statement'')
       = strip_footer ''Intro.  ### Was this information helpful? Privacy Statement''"
proof -
  have mp: "marker_positions ''Intro.  ### Was this information helpful? Privacy Statement'' = [8, 12, 42]"
    by code_simp
  have sf: "strip_footer ''Intro.  ### Was this information helpful? Privacy Statement'' = ''Intro.''"
    by code_simp
  show ?thesis
    using strip_footer_idempotent_at_earliest_marker
      [of "''Intro.  ### Was this information helpful? Privacy Statement''"] mp sf
    by simp
qed

text \<open>
  Claim C9: a listed marker whose first occurrence is at index 0 is ignored by the test
  \<open>idx > 0\<close>: the truncation gives what it would give were the marker not listed, and
  when no other listed marker occurs first at a positive index it returns the content
  unchanged.
\<close>

theorem strip_footer_marker_at_zero:
  assumes "m \<in> set footer_markers" and "str_find c m = 0"
  shows "(\<forall>pre post. footer_markers = pre @ m # post \<longrightarrow>
            strip_footer c = strip_footer_loop (pre @ post) c)
    \<and> ((\<forall>m' \<in> set footer_markers. m' \<noteq> m \<longrightarrow> \<not> 0 < str_find c m') \<longrightarrow> strip_footer c = c)"
proof (intro conjI allI impI)
  fix pre post
  assume "footer_markers = pre @ m # post"
  then show "strip_footer c = strip_footer_loop (pre @ post) c"
    using assms(2) strip_footer_loop_skip [of c m pre post] by (simp add: strip_footer_def)
next
  assume o: "\<forall>m' \<in> set footer_markers. m' \<noteq> m \<longrightarrow> \<not> 0 < str_find c m'"
  have "\<not> 0 < str_find c m'" if "m' \<in> set footer_markers" for m'
    using assms o that by (cases "m' = m") auto
  then have "filter ((<) 0) (map (str_find c) footer_markers) = []"
    by (simp add: filter_empty_conv)
  then show "strip_footer c = c" by (simp add: strip_footer_def strip_footer_loop_none)
qed

theorem strip_footer_marker_at_zero_witness:
  "str_find ''Privacy Statement for the docs'' ''Privacy Statement'' = 0
   \<and> strip_footer ''Privacy Statement for the docs'' = ''Privacy Statement for the docs''"
proof -
  have h1: "''Privacy Statement'' \<in> set footer_markers" by code_simp
  have h2: "str_find ''Privacy Statement for the docs'' ''Privacy Statement'' = 0" by code_simp
  have h3: "\<forall>m' \<in> set footer_markers. m' \<noteq> ''Privacy Statement'' \<longrightarrow>
      \<not> 0 < str_find ''Privacy Statement for the docs'' m'" by code_simp
  from strip_footer_marker_at_zero [OF h1 h2] h2 h3 show ?thesis by blast
qed


section \<open>Properties of the main pass of the content cleaner\<close>

lemma clean_step_fence_before_start:
  "\<not> found_content_start st \<Longrightarrow> is_fence_line l \<Longrightarrow>
   clean_step t st l = st\<lparr>in_code_block := \<not> in_code_block st\<rparr>"
  by (simp add: clean_step_def)

lemma clean_step_inside_before_start:
  "\<not> found_content_start st \<Longrightarrow> in_code_block st \<Longrightarrow> \<not> is_fence_line l \<Longrightarrow>
   clean_step t st l = st"
  by (simp add: clean_step_def)

lemma clean_body_before_start:
  "\<not> found_content_start st \<Longrightarrow> in_code_block st \<Longrightarrow> \<forall>l \<in> set body. \<not> is_fence_line l \<Longrightarrow>
   foldl (clean_step t) st body = st"
  by (induction body) (simp_all add: clean_step_inside_before_start)

lemma clean_block_before_start:
  assumes "\<not> found_content_start st" and "\<not> in_code_block st"
    and "is_fence_line opening" and "is_fence_line closing"
    and "\<forall>l \<in> set body. \<not> is_fence_line l"
  shows "foldl (clean_step t) st (opening # body @ [closing]) = st"
proof -
  let ?st1 = "st\<lparr>in_code_block := True\<rparr>"
  have 1: "clean_step t st opening = ?st1"
    using assms by (simp add: clean_step_fence_before_start)
  have 2: "foldl (clean_step t) ?st1 body = ?st1"
    using assms by (intro clean_body_before_start) simp_all
  have 3: "clean_step t ?st1 closing = st"
    using assms by (simp add: clean_step_fence_before_start)
  show ?thesis by (simp add: 1 2 3)
qed

lemma clean_step_keeps_nothing_before_start:
  "\<not> found_content_start (clean_step t st l) \<Longrightarrow> cleaned_lines (clean_step t st l) = cleaned_lines st"
  by (auto simp: clean_step_def keep_def Let_def split: if_splits)

lemma clean_step_start_latched:
  "found_content_start st \<Longrightarrow> found_content_start (clean_step t st l)"
  by (auto simp: clean_step_def keep_def Let_def split: if_splits)

lemma foldl_nothing_before_start:
  "\<not> found_content_start (foldl (clean_step t) st ls) \<Longrightarrow>
   cleaned_lines (foldl (clean_step t) st ls) = cleaned_lines st"
proof (induction ls arbitrary: st)
  case Nil
  then show ?case by simp
next
  case (Cons l ls)
  have latched: "found_content_start (foldl (clean_step t) s ks)" if "found_content_start s" for s ks
    using that by (induction ks arbitrary: s) (simp_all add: clean_step_start_latched)
  from Cons.prems have n: "\<not> found_content_start (clean_step t st l)"
    using latched by auto
  from Cons.IH [of "clean_step t st l"] Cons.prems
  have "cleaned_lines (foldl (clean_step t) st (l # ls)) = cleaned_lines (clean_step t st l)"
    by simp
  with n show ?case by (simp add: clean_step_keeps_nothing_before_start)
qed

text \<open>
  Claim C10: a fenced code block that lies wholly before the content start is dropped by
  the main pass. After any lines \<open>pre\<close> that leave the loop outside a fence with the
  content start not yet found, an opening fence line, any body lines that are not fence
  lines (whatever they hold, a heading or the page title included) and a closing fence line
  leave the loop's state as it was: nothing is kept, \<open>found_content_start\<close> stays false,
  and the remaining lines are processed as if the block had not been there.
\<close>

theorem fence_before_content_start_dropped:
  assumes "\<not> found_content_start (clean_loop t pre)" and "\<not> in_code_block (clean_loop t pre)"
    and "is_fence_line opening" and "is_fence_line closing"
    and "\<forall>l \<in> set body. \<not> is_fence_line l"
  shows "clean_loop t (pre @ opening # body @ [closing]) = clean_loop t pre
    \<and> cleaned_lines (clean_loop t (pre @ opening # body @ [closing])) = []
    \<and> \<not> found_content_start (clean_loop t (pre @ opening # body @ [closing]))
    \<and> clean_loop t (pre @ opening # body @ closing # rest)
        = foldl (clean_step t) (clean_loop t pre) rest"
proof -
  have blk: "foldl (clean_step t) (clean_loop t pre) (opening # body @ [closing]) = clean_loop t pre"
    using assms by (rule clean_block_before_start)
  have a: "clean_loop t (pre @ opening # body @ [closing]) = clean_loop t pre"
    using blk by (simp add: clean_loop_def)
  have "cleaned_lines (clean_loop t pre) = cleaned_lines clean_init"
    using assms(1) unfolding clean_loop_def by (rule foldl_nothing_before_start)
  then have b: "cleaned_lines (clean_loop t pre) = []" by (simp add: clean_init_def)
  have "clean_loop t (pre @ (opening # body @ [closing]) @ rest)
      = foldl (clean_step t) (foldl (clean_step t) (clean_loop t pre) (opening # body @ [closing])) rest"
    unfolding clean_loop_def foldl_append ..
  then have c: "clean_loop t (pre @ opening # body @ closing # rest)
      = foldl (clean_step t) (clean_loop t pre) rest"
    using blk by simp
  from a b c assms(1) show ?thesis by simp
qed

theorem fence_before_content_start_dropped_witness:
  "is_fence_line ''```python'' \<and> is_fence_line ''```'' \<and> \<not> is_fence_line ''# T''
   \<and> clean_loop ''T'' ([''menu''] @ ''```python'' # [''# T''] @ [''```'']) = clean_loop ''T'' [''menu'']
   \<and> cleaned_lines (clean_loop ''T'' ([''menu''] @ ''```python'' # [''# T''] @ ''```'' # [''# T'', ''text'']))
       = [''# T'', ''text'']"
proof -
  have h1: "\<not> found_content_start (clean_loop ''T'' [''menu''])" by code_simp
  have h2: "\<not> in_code_block (clean_loop ''T'' [''menu''])" by code_simp
  have h3: "is_fence_line ''```python''" by code_simp
  have h4: "is_fence_line ''```''" by code_simp
  have h5: "\<forall>l \<in> set [''# T'']. \<not> is_fence_line l" by code_simp
  have e: "cleaned_lines (foldl (clean_step ''T'') (clean_loop ''T'' [''menu'']) [''# T'', ''text''])
       = [''# T'', ''text'']" by code_simp
  from fence_before_content_start_dropped [OF h1 h2 h3 h4 h5, of "[''# T'', ''text'']"] h3 h4 h5 e
  show ?thesis by simp
qed

text \<open>
  After the content start the main pass keeps a fenced block verbatim: both fence lines and
  every line between them, whatever noise pattern they match.
\<close>

lemma clean_step_fence_after_start:
  "found_content_start st \<Longrightarrow> is_fence_line l \<Longrightarrow>
   clean_step t st l = st\<lparr>in_code_block := \<not> in_code_block st, cleaned_lines := cleaned_lines st @ [l]\<rparr>"
  by (simp add: clean_step_def keep_def)

lemma clean_step_inside_after_start:
  "found_content_start st \<Longrightarrow> in_code_block st \<Longrightarrow> \<not> is_fence_line l \<Longrightarrow>
   clean_step t st l = st\<lparr>cleaned_lines := cleaned_lines st @ [l]\<rparr>"
  by (simp add: clean_step_def keep_def)

lemma clean_body_after_start:
  "found_content_start st \<Longrightarrow> in_code_block st \<Longrightarrow> \<forall>l \<in> set body. \<not> is_fence_line l \<Longrightarrow>
   foldl (clean_step t) st body = st\<lparr>cleaned_lines := cleaned_lines st @ body\<rparr>"
proof (induction body arbitrary: st)
  case Nil
  then show ?case by simp
next
  case (Cons l body)
  then show ?case by (simp add: clean_step_inside_after_start)
qed

lemma main_pass_keeps_fenced_block:
  assumes "found_content_start st" and "\<not> in_code_block st"
    and "is_fence_line opening" and "is_fence_line closing"
    and "\<forall>l \<in> set body. \<not> is_fence_line l"
  shows "foldl (clean_step t) st (opening # body @ [closing])
     = st\<lparr>cleaned_lines := cleaned_lines st @ opening # body @ [closing]\<rparr>"
proof -
  let ?st1 = "st\<lparr>in_code_block := True, cleaned_lines := cleaned_lines st @ [opening]\<rparr>"
  let ?st2 = "st\<lparr>in_code_block := True, cleaned_lines := cleaned_lines st @ opening # body\<rparr>"
  have 1: "clean_step t st opening = ?st1"
    using assms by (simp add: clean_step_fence_after_start)
  have 2: "foldl (clean_step t) ?st1 body = ?st2"
    using assms by (simp add: clean_body_after_start)
  have 3: "clean_step t ?st2 closing = st\<lparr>cleaned_lines := cleaned_lines st @ opening # body @ [closing]\<rparr>"
    using assms by (simp add: clean_step_fence_after_start)
  show ?thesis by (simp add: 1 2 3)
qed

text \<open>
  Claim C1 on the code: the output of \<open>clean_content\<close> is not the main pass's result but
  that result after \<open>_strip_footer\<close>, or after \<open>_simple_clean\<close> when the result is shorter
  than 50 characters and the input longer than 100, and neither tracks fences. In the first
  input the fenced line holds a footer marker and the output is cut inside the fence; in
  the second the fallback runs and drops the fenced line \<open>Sign In\<close>.
\<close>

theorem clean_content_cuts_inside_fence:
  "clean_content ''# T\<newline>```\<newline>Privacy Statement\<newline>```'' ''T'' = ''# T\<newline>```''
   \<and> clean_content
        (''# T\<newline>```\<newline>Sign In\<newline>```'' @ concat (replicate 17 ''\<newline>Share'')) ''T''
       = ''# T\<newline>```\<newline>```''"
  by code_simp


section \<open>Properties of the navigation-tree expansion\<close>

lemma click_all_passes: "passes (click_all env btns st) = passes st"
  by (induction btns arbitrary: st) (auto split: prod.splits bool.splits)

lemma click_all_raised: "raised (click_all env btns st) = raised st"
  by (induction btns arbitrary: st) (auto split: prod.splits bool.splits)

lemma click_all_tree:
  "tree st = tree st' \<Longrightarrow> tree (click_all env btns st) = tree (click_all env btns st')"
proof (induction btns arbitrary: st st')
  case Nil
  then show ?case by simp
next
  case (Cons btn btns)
  obtain s' ok where c: "click env btn (tree st') = (s', ok)" by (cases "click env btn (tree st')")
  show ?case
  proof (cases ok)
    case True
    have "tree (click_all env btns (st\<lparr>tree := settle env s', total_expanded := total_expanded st + 1\<rparr>))
        = tree (click_all env btns (st'\<lparr>tree := settle env s', total_expanded := total_expanded st' + 1\<rparr>))"
      by (rule Cons.IH) simp
    with True c Cons.prems show ?thesis by simp
  next
    case False
    have "tree (click_all env btns (st\<lparr>tree := s'\<rparr>)) = tree (click_all env btns (st'\<lparr>tree := s'\<rparr>))"
      by (rule Cons.IH) simp
    with False c Cons.prems show ?thesis by simp
  qed
qed

lemma expand_pass_fields:
  "passes (expand_pass env items st) = passes st + 1"
  "raised (expand_pass env items st) = raised st"
  by (simp_all add: expand_pass_def Let_def click_all_passes click_all_raised)

lemma expand_pass_tree:
  "q (tree st) = Inr items \<Longrightarrow> tree (expand_pass env items st) = full_pass env q (tree st)"
  using click_all_tree [of "st\<lparr>passes := passes st + 1\<rparr>"
      "\<lparr>tree = tree st, passes = 0, total_expanded = 0, raised = None\<rparr>\<lparr>passes := 0 + 1\<rparr>" env items]
  by (simp add: full_pass_def expand_pass_def Let_def)

lemma expand_loop_bounded: "passes (expand_loop env q n st) \<le> passes st + n"
proof (induction n arbitrary: st)
  case 0
  then show ?case by simp
next
  case (Suc n)
  show ?case
  proof (cases "q (tree st)")
    case (Inl e)
    then show ?thesis by simp
  next
    case (Inr items)
    show ?thesis
    proof (cases "items = []")
      case True
      with Inr show ?thesis by simp
    next
      case False
      from Suc.IH [of "expand_pass env items st"] Inr False
      show ?thesis by (simp add: expand_pass_fields)
    qed
  qed
qed

lemma expand_loop_stops_at:
  assumes "k < n" and "finds_none_first_at env q (tree st) k"
  shows "tree (expand_loop env q n st) = (full_pass env q ^^ k) (tree st)
    \<and> passes (expand_loop env q n st) = passes st + Suc k
    \<and> raised (expand_loop env q n st) = raised st"
  using assms
proof (induction k arbitrary: n st)
  case 0
  then obtain m where n: "n = Suc m" by (cases n) auto
  from 0 have "q (tree st) = Inr []" by (simp add: finds_none_first_at_def)
  then show ?case by (simp add: n)
next
  case (Suc k)
  then obtain m where n: "n = Suc m" and km: "k < m" by (cases n) auto
  from Suc.prems(2)
  have all: "\<forall>i \<in> {0..<Suc k}. finds_some q ((full_pass env q ^^ i) (tree st))"
    and last: "q ((full_pass env q ^^ Suc k) (tree st)) = Inr []"
    unfolding finds_none_first_at_def list_all_iff set_upt by blast+
  have "(0::nat) \<in> {0..<Suc k}" by simp
  with all have "finds_some q ((full_pass env q ^^ 0) (tree st))" by blast
  then have fs: "finds_some q (tree st)" by simp
  from fs obtain items where q: "q (tree st) = Inr items" and ne: "items \<noteq> []"
    by (auto simp: finds_some_def split: sum.splits)
  let ?st = "expand_pass env items st"
  have t: "tree ?st = full_pass env q (tree st)" using q by (rule expand_pass_tree)
  have shift: "(full_pass env q ^^ j) (tree ?st) = (full_pass env q ^^ Suc j) (tree st)" for j
    by (simp add: t funpow_swap1)
  have "finds_some q ((full_pass env q ^^ Suc j) (tree st))" if "j < k" for j
  proof -
    from that have "Suc j \<in> {0..<Suc k}" by simp
    with all show ?thesis by blast
  qed
  then have "list_all (\<lambda>j. finds_some q ((full_pass env q ^^ j) (tree ?st))) [0..<k]"
    by (simp add: shift list_all_iff del: funpow.simps)
  with last have "finds_none_first_at env q (tree ?st) k"
    by (simp add: finds_none_first_at_def shift)
  from Suc.IH [OF km this] q ne show ?case
    by (simp add: n shift expand_pass_fields del: funpow.simps)
qed

lemma expand_phase_bounded:
  "(\<forall>r. api_expansion (expand_phase env s) = Some r \<longrightarrow> passes r \<le> 20)
   \<and> (\<forall>r. fallback_expansion (expand_phase env s) = Some r \<longrightarrow> passes r \<le> 30)
   \<and> (\<forall>r. handler_expansion (expand_phase env s) = Some r \<longrightarrow> passes r \<le> 30)"
proof -
  have a: "passes (expand_all_api_subsections env max_depth_default t) \<le> 20" for t
    using expand_loop_bounded [of env "query_in_section env" 20
        "\<lparr>tree = t, passes = 0, total_expanded = 0, raised = None\<rparr>"]
    by (simp add: expand_all_api_subsections_def max_depth_default_def)
  have b: "passes (expand_all_sections env max_iterations_default t) \<le> 30" for t
    using expand_loop_bounded [of env "query_in_page env" 30
        "\<lparr>tree = t, passes = 0, total_expanded = 0, raised = None\<rparr>"]
    by (simp add: expand_all_sections_def max_iterations_default_def)
  show ?thesis
    using a b
    by (auto simp: expand_phase_def Let_def split: sum.splits bool.splits prod.splits option.splits)
qed

text \<open>
  Claim C7, as stated, fails: the cap of 20 passes is the default of the expansion inside
  the API section only. The whole-tree fallback \<open>_expand_all_sections\<close> has the default
  \<open>max_iterations = 30\<close>, and on a tree that always shows a collapsed node it runs 30
  passes.
\<close>

theorem fallback_expansion_exceeds_20_passes:
  "\<not> passes (expand_all_sections env_always max_iterations_default ()) \<le> 20"
  by code_simp

text \<open>
  Claim C7, amended: each expansion loop is a \<open>for\<close> over a range and so ends. The
  expansion inside the API section runs at most \<open>max_depth\<close> passes and the whole-tree
  fallback at most \<open>max_iterations\<close> passes; as discovery calls them, with their
  defaults, that is at most 20 passes inside the API section and at most 30 for each
  whole-tree expansion. Either loop ends as soon as a pass finds no collapsed node: when
  the query finds collapsed nodes in the first \<open>k\<close> passes and none in the next, the loop
  returns after \<open>k + 1\<close> passes, without an exception, on the tree as those \<open>k\<close> passes
  left it.
\<close>

theorem expansion_passes_bounded:
  "passes (expand_all_api_subsections env max_depth s) \<le> max_depth
   \<and> passes (expand_all_sections env max_iterations s) \<le> max_iterations
   \<and> (\<forall>k < max_depth. finds_none_first_at env (query_in_section env) s k \<longrightarrow>
         passes (expand_all_api_subsections env max_depth s) = Suc k
         \<and> tree (expand_all_api_subsections env max_depth s)
             = (full_pass env (query_in_section env) ^^ k) s
         \<and> raised (expand_all_api_subsections env max_depth s) = None)
   \<and> (\<forall>k < max_iterations. finds_none_first_at env (query_in_page env) s k \<longrightarrow>
         passes (expand_all_sections env max_iterations s) = Suc k
         \<and> tree (expand_all_sections env max_iterations s)
             = (full_pass env (query_in_page env) ^^ k) s
         \<and> raised (expand_all_sections env max_iterations s) = None)
   \<and> (\<forall>r. api_expansion (expand_phase env s) = Some r \<longrightarrow> passes r \<le> 20)
   \<and> (\<forall>r. fallback_expansion (expand_phase env s) = Some r \<longrightarrow> passes r \<le> 30)
   \<and> (\<forall>r. handler_expansion (expand_phase env s) = Some r \<longrightarrow> passes r \<le> 30)"
proof -
  let ?init = "\<lparr>tree = s, passes = 0, total_expanded = 0, raised = None\<rparr>"
  have 1: "passes (expand_all_api_subsections env max_depth s) \<le> max_depth"
    using expand_loop_bounded [of env "query_in_section env" max_depth ?init]
    by (simp add: expand_all_api_subsections_def)
  have 2: "passes (expand_all_sections env max_iterations s) \<le> max_iterations"
    using expand_loop_bounded [of env "query_in_page env" max_iterations ?init]
    by (simp add: expand_all_sections_def)
  have 3: "passes (expand_all_api_subsections env max_depth s) = Suc k
         \<and> tree (expand_all_api_subsections env max_depth s)
             = (full_pass env (query_in_section env) ^^ k) s
         \<and> raised (expand_all_api_subsections env max_depth s) = None"
    if "k < max_depth" "finds_none_first_at env (query_in_section env) s k" for k
    using expand_loop_stops_at [of k max_depth env "query_in_section env" ?init] that
    by (simp add: expand_all_api_subsections_def del: funpow.simps)
  have 4: "passes (expand_all_sections env max_iterations s) = Suc k
         \<and> tree (expand_all_sections env max_iterations s)
             = (full_pass env (query_in_page env) ^^ k) s
         \<and> raised (expand_all_sections env max_iterations s) = None"
    if "k < max_iterations" "finds_none_first_at env (query_in_page env) s k" for k
    using expand_loop_stops_at [of k max_iterations env "query_in_page env" ?init] that
    by (simp add: expand_all_sections_def del: funpow.simps)
  from 1 2 3 4 expand_phase_bounded [of env s] show ?thesis by blast
qed

theorem expansion_passes_bounded_witness:
  "passes (expand_all_api_subsections env_levels 20 2) = 3
   \<and> tree (expand_all_api_subsections env_levels 20 2) = 0
   \<and> raised (expand_all_api_subsections env_levels 20 2) = None
   \<and> passes (expand_all_sections env_levels 30 0) = 1"
proof -
  have h2: "finds_none_first_at env_levels (query_in_section env_levels) 2 2" by code_simp
  have t2: "(full_pass env_levels (query_in_section env_levels) ^^ 2) 2 = 0" by code_simp
  have h0: "finds_none_first_at env_levels (query_in_page env_levels) 0 0" by code_simp
  have k2: "(2::nat) < 20" and k0: "(0::nat) < 30" by simp_all
  from expansion_passes_bounded [of env_levels 20 2 30] h2 k2
  have "passes (expand_all_api_subsections env_levels 20 2) = Suc 2
     \<and> tree (expand_all_api_subsections env_levels 20 2)
         = (full_pass env_levels (query_in_section env_levels) ^^ 2) 2
     \<and> raised (expand_all_api_subsections env_levels 20 2) = None"
    by blast
  then have a: "passes (expand_all_api_subsections env_levels 20 2) = 3
     \<and> tree (expand_all_api_subsections env_levels 20 2) = 0
     \<and> raised (expand_all_api_subsections env_levels 20 2) = None"
    by (simp only: t2) simp
  from expansion_passes_bounded [of env_levels 20 0 30] h0 k0
  have b: "passes (expand_all_sections env_levels 30 0) = 1" by auto
  from a b show ?thesis by blast
qed

section \<open>Properties of the content extraction and of scraping one page\<close>

lemma extract_loop_skip:
  "\<not> qualifies page selector \<Longrightarrow> extract_loop page (selector # rest) = extract_loop page rest"
  by (auto simp: qualifies_def split: sum.splits option.splits)

lemma extract_loop_first:
  assumes "\<forall>s \<in> set pre. \<not> qualifies page s"
    and "query_selector page selector = Inr (Some el)" and "element_text el = Inr text"
    and "100 < length text"
  shows "extract_loop page (pre @ selector # post) = normalize_text text"
proof -
  have last: "extract_loop page (selector # post) = normalize_text text"
    using assms(2-4) by auto
  show ?thesis
    using assms(1)
  proof (induction pre)
    case Nil
    show ?case using last by simp
  next
    case (Cons a pre)
    then have "extract_loop page (a # (pre @ selector # post)) = extract_loop page (pre @ selector # post)"
      by (intro extract_loop_skip) simp
    with Cons show ?case by (simp del: extract_loop.simps)
  qed
qed

text \<open>
  Claim C5, as stated, fails at a text of exactly 100 characters, which the test
  \<open>len(text) > 100\<close> rejects: with 100 characters under \<open>.body_content\<close> and 101 under
  \<open>article\<close> the extractor returns the text of \<open>article\<close>; with 100 characters under
  \<open>main\<close> alone, and a fallback script that raises, it returns the empty string.
\<close>

theorem extract_content_skips_100_characters:
  "extract_content (page_of_selectors
      [(''.body_content'', replicate 100 CHR ''a''), (''article'', replicate 101 CHR ''b'')])
     = replicate 101 CHR ''b''
   \<and> extract_content (page_of_selectors [(''main'', replicate 100 CHR ''a'')]) = []"
  by code_simp

text \<open>
  Claim C5, amended: the selectors are tried in the order \<open>.body_content\<close>,
  \<open>#body-content\<close>, \<open>.caas_body\<close>, \<open>article\<close>, \<open>main\<close>, and the extractor returns the
  normalised text (runs of newlines and of spaces collapsed, then stripped) of the first
  selector that is present with a readable text of more than 100 characters; so when the
  earlier selectors are absent and a later one is present with more than 100 characters,
  that later selector's normalised text is returned.
\<close>

theorem extract_content_first_qualifying:
  assumes "selectors = pre @ selector # post"
    and "\<forall>s \<in> set pre. \<not> qualifies page s"
    and "query_selector page selector = Inr (Some el)" and "element_text el = Inr text"
    and "100 < length text"
  shows "extract_content page = normalize_text text
    \<and> selectors = [''.body_content'', ''#body-content'', ''.caas_body'', ''article'', ''main'']"
  using extract_loop_first [OF assms(2-5), of post] assms(1)
  by (simp add: extract_content_def) (simp add: selectors_def)

theorem extract_content_first_qualifying_witness:
  "extract_content (page_of_selectors [(''article'', ''Title'' @ replicate 100 CHR '' '' @ ''body'')])
     = ''Title body''"
proof -
  let ?t = "''Title'' @ replicate 100 CHR '' '' @ ''body''"
  let ?p = "page_of_selectors [(''article'', ?t)]"
  have s: "selectors = [''.body_content'', ''#body-content'', ''.caas_body''] @ ''article'' # [''main'']"
    by (simp add: selectors_def)
  have n: "\<forall>s \<in> set [''.body_content'', ''#body-content'', ''.caas_body'']. \<not> qualifies ?p s"
    by (simp add: qualifies_def page_of_selectors_def)
  have q: "query_selector ?p ''article'' = Inr (Some \<lparr>element_text = Inr ?t\<rparr>)"
    by (simp add: page_of_selectors_def)
  have t: "element_text \<lparr>element_text = Inr ?t\<rparr> = Inr ?t" by simp
  have l: "100 < length ?t" by simp
  have nt: "normalize_text ?t = ''Title body''" by code_simp
  from extract_content_first_qualifying [OF s n q t l] nt show ?thesis by simp
qed

text \<open>
  Claim C4, as stated, fails at a content of exactly 50 characters: the test is
  \<open>len(content) > 50\<close>, so such a page is discarded, not kept, and a run over a site of
  that one page writes the index alone, with no entry.
\<close>

theorem content_of_50_characters_discarded:
  "length (extract_content (page_with_fallback (replicate 50 CHR ''a''))) = 50
   \<and> scraped_pages (scrape_page (browser_showing (page_with_fallback (replicate 50 CHR ''a''))) ''now''
        \<lparr>scraped_pages = [], fetched = []\<rparr> \<lparr>url = ''u'', title = ''t'', guid = ''GUID-A''\<rparr>) = []
   \<and> map_sum id (\<lambda>(d, fetches). (map fst d, map_option (map entry_guid) (manifest_entries d)))
        (run (browser_of_text (replicate 50 CHR ''a'')) False ''now'' [])
       = Inr ([''index.json''], Some [])"
  by code_simp

text \<open>
  What \<open>_scrape_page\<close> appends for a page that loads: the page, when its extracted content
  is longer than 50 characters, and nothing otherwise.
\<close>

lemma scrape_page_threshold:
  assumes "goto b (url link_info) = Inr page"
  shows "scraped_pages (scrape_page b now st link_info) =
     (if 50 < length (extract_content page)
      then scraped_pages st @
             [\<lparr>url = url link_info, title = title link_info, guid = guid link_info,
               content = extract_content page, scraped_at = now\<rparr>]
      else scraped_pages st)"
  using assms by (auto simp: scrape_page_def Let_def)

section \<open>Properties of the link discovery\<close>

lemma discover_step_entry:
  "discover_step st a =
     (case link_entry a of
        None \<Rightarrow> st
      | Some p \<Rightarrow>
          if guid p \<in> visited_guids st then st
          else st\<lparr>visited_guids := insert (guid p) (visited_guids st), pages := pages st @ [p]\<rparr>)"
  by (auto simp: discover_step_def link_entry_def Let_def split: sum.splits option.splits)

lemma foldl_discover_step:
  "foldl discover_step st links =
     st\<lparr>visited_guids := visited_guids st \<union> guid ` set (first_occurrences (visited_guids st) (List.map_filter link_entry links)),
        pages := pages st @ first_occurrences (visited_guids st) (List.map_filter link_entry links)\<rparr>"
proof (induction links arbitrary: st)
  case Nil
  then show ?case by (simp add: List.map_filter_simps)
next
  case (Cons a links)
  show ?case
  proof (cases "link_entry a")
    case None
    then have "discover_step st a = st" by (simp add: discover_step_entry)
    with None Cons.IH [of st] show ?thesis by (simp add: List.map_filter_simps)
  next
    case (Some p)
    show ?thesis
    proof (cases "guid p \<in> visited_guids st")
      case True
      with Some have "discover_step st a = st" by (simp add: discover_step_entry)
      with Some True Cons.IH [of st] show ?thesis by (simp add: List.map_filter_simps)
    next
      case False
      with Some have "discover_step st a =
          st\<lparr>visited_guids := insert (guid p) (visited_guids st), pages := pages st @ [p]\<rparr>"
        by (simp add: discover_step_entry)
      with Some False Cons.IH [of "st\<lparr>visited_guids := insert (guid p) (visited_guids st), pages := pages st @ [p]\<rparr>"]
      show ?thesis by (simp add: List.map_filter_simps)
    qed
  qed
qed

lemma first_occurrences_fresh:
  "p \<in> set (first_occurrences V ps) \<Longrightarrow> guid p \<notin> V \<and> p \<in> set ps"
  by (induction ps arbitrary: V) (auto split: if_splits)

lemma first_occurrences_distinct: "distinct (map guid (first_occurrences V ps))"
proof (induction ps arbitrary: V)
  case Nil
  then show ?case by simp
next
  case (Cons p ps)
  have "guid q \<noteq> guid p" if "q \<in> set (first_occurrences (insert (guid p) V) ps)" for q
    using first_occurrences_fresh [OF that] by blast
  then have "guid p \<notin> guid ` set (first_occurrences (insert (guid p) V) ps)"
    by force
  with Cons show ?case by simp
qed

lemma first_occurrences_first:
  "p \<in> set (first_occurrences V ps) \<Longrightarrow> List.find (\<lambda>q. guid q = guid p) ps = Some p"
proof (induction ps arbitrary: V)
  case Nil
  then show ?case by simp
next
  case (Cons p0 ps)
  show ?case
  proof (cases "guid p0 \<in> V")
    case True
    with Cons.prems have in_rest: "p \<in> set (first_occurrences V ps)" by simp
    have "guid p \<notin> V" using first_occurrences_fresh [OF in_rest] by blast
    with True have "guid p0 \<noteq> guid p" by auto
    with Cons.IH [OF in_rest] show ?thesis by simp
  next
    case False
    with Cons.prems have "p = p0 \<or> p \<in> set (first_occurrences (insert (guid p0) V) ps)" by simp
    then show ?thesis
    proof
      assume "p = p0"
      then show ?thesis by simp
    next
      assume in_rest: "p \<in> set (first_occurrences (insert (guid p0) V) ps)"
      have "guid p \<notin> insert (guid p0) V"
        using first_occurrences_fresh [OF in_rest] by blast
      then have "guid p0 \<noteq> guid p" by auto
      with Cons.IH [OF in_rest] show ?thesis by simp
    qed
  qed
qed

lemma first_occurrences_complete:
  "guid ` set (first_occurrences V ps) = guid ` set ps - V"
proof (induction ps arbitrary: V)
  case Nil
  then show ?case by simp
next
  case (Cons p ps)
  then show ?case by auto
qed

lemma link_entry_title:
  "link_entry a = Some p \<Longrightarrow> title p \<noteq> [] \<and> (\<exists>t. inner_text a = Inr t \<and> title p = strip t)"
  by (auto simp: link_entry_def Let_def split: sum.splits option.splits if_splits)

lemma link_entry_blank:
  "inner_text a = Inr t \<Longrightarrow> strip t = [] \<Longrightarrow> link_entry a = None"
  by (auto simp: link_entry_def Let_def split: sum.splits option.splits if_splits)

text \<open>
  Claim C6: the links that a discovery pass returns have pairwise different identifiers.
  They are the first occurrences, in order, of the identifiers not yet in the discovery
  set among the entries of the anchors: each returned link is the first entry with its
  identifier, its title is not empty, and an anchor whose text is empty or only
  whitespace leaves the discovery as it was.
\<close>

theorem discovered_links_unique:
  "distinct (map guid (pages (discover_links V links)))
   \<and> pages (discover_links V links) = first_occurrences V (List.map_filter link_entry links)
   \<and> guid ` set (pages (discover_links V links)) = guid ` set (List.map_filter link_entry links) - V
   \<and> (\<forall>p \<in> set (pages (discover_links V links)).
         List.find (\<lambda>q. guid q = guid p) (List.map_filter link_entry links) = Some p
         \<and> title p \<noteq> [])
   \<and> (\<forall>a t st. inner_text a = Inr t \<and> strip t = [] \<longrightarrow> discover_step st a = st)"
proof -
  let ?c = "List.map_filter link_entry links"
  have pg: "pages (discover_links V links) = first_occurrences V ?c"
    by (simp add: discover_links_def foldl_discover_step)
  have t: "title p \<noteq> []" if "p \<in> set (first_occurrences V ?c)" for p
  proof -
    from that have "p \<in> set ?c" by (simp add: first_occurrences_fresh)
    then obtain a where "link_entry a = Some p" by (auto simp: List.map_filter_def)
    then show ?thesis by (simp add: link_entry_title)
  qed
  have b: "discover_step st a = st" if "inner_text a = Inr t \<and> strip t = []" for a t st
    using that link_entry_blank [of a t] by (simp add: discover_step_entry)
  show ?thesis
    unfolding pg
    using first_occurrences_distinct [of V ?c] first_occurrences_complete [of V ?c]
      first_occurrences_first [of _ V ?c] t b
    by blast
qed

theorem discovered_links_unique_witness:
  "pages (discover_links {} example_anchors) =
     [\<lparr>url = ''https://help.autodesk.com/view/ALIAS/2026/ENU/?guid=GUID-A1'', title = ''One'', guid = ''GUID-A1''\<rparr>,
      \<lparr>url = ''http://x/?guid=GUID-B2'', title = ''Two'', guid = ''GUID-B2''\<rparr>]
   \<and> distinct (map guid (pages (discover_links {} example_anchors)))"
proof -
  have "pages (discover_links {} example_anchors) =
     [\<lparr>url = ''https://help.autodesk.com/view/ALIAS/2026/ENU/?guid=GUID-A1'', title = ''One'', guid = ''GUID-A1''\<rparr>,
      \<lparr>url = ''http://x/?guid=GUID-B2'', title = ''Two'', guid = ''GUID-B2''\<rparr>]"
    by code_simp
  with discovered_links_unique [of "{}" example_anchors] show ?thesis by blast
qed


section \<open>Properties of the orchestrators and the store\<close>





lemma map_of_write_file: "map_of (write_file n f d) = (map_of d)(n \<mapsto> f)"
  by (induction d) (auto simp: fun_eq_iff)





















section \<open>Persistence of a scraped page by the browser-driven orchestrator\<close>

lemma guid_search_prefix: "guid_search s = Some g \<Longrightarrow> startswith g ''GUID-''"
  by (induction s) (auto simp: Let_def startswith_def split: if_splits)

lemma link_entry_guid: "link_entry a = Some p \<Longrightarrow> startswith (guid p) ''GUID-''"
  by (auto simp: link_entry_def Let_def guid_search_prefix split: sum.splits option.splits if_splits)

lemma run_links_subset:
  "set (run_links b test_mode) \<subseteq> set (first_occurrences {} (List.map_filter link_entry (nav_anchors b)))"
  by (auto simp: run_links_def Let_def discover_links_def foldl_discover_step dest: in_set_takeD)

lemma run_links_distinct: "distinct (map guid (run_links b test_mode))"
  using first_occurrences_distinct [of "{}" "List.map_filter link_entry (nav_anchors b)"]
  by (simp add: run_links_def Let_def discover_links_def foldl_discover_step take_map [symmetric])

lemma run_links_prefix: "p \<in> set (run_links b test_mode) \<Longrightarrow> startswith (guid p) ''GUID-''"
proof -
  assume "p \<in> set (run_links b test_mode)"
  with run_links_subset have "p \<in> set (first_occurrences {} (List.map_filter link_entry (nav_anchors b)))"
    by blast
  then have "p \<in> set (List.map_filter link_entry (nav_anchors b))"
    by (simp add: first_occurrences_fresh)
  then obtain a where "link_entry a = Some p" by (auto simp: List.map_filter_def)
  then show ?thesis by (rule link_entry_guid)
qed

lemma scrape_page_append:
  "scraped_pages (scrape_page b now st l) = scraped_pages st @ kept_pages b now l"
  by (simp add: kept_pages_def scrape_page_def Let_def split: sum.splits)

lemma foldl_scrape_page:
  "scraped_pages (foldl (scrape_page b now) st ls)
     = scraped_pages st @ concat (map (kept_pages b now) ls)"
  by (induction ls arbitrary: st) (simp_all add: scrape_page_append)

lemma kept_pages_loaded:
  "goto b (url l) = Inr page \<Longrightarrow>
   kept_pages b now l =
     (if 50 < length (extract_content page)
      then [\<lparr>url = url l, title = title l, guid = guid l,
             content = extract_content page, scraped_at = now\<rparr>]
      else [])"
  by (auto simp: kept_pages_def scrape_page_def Let_def)

lemma kept_pages_guid: "p \<in> set (kept_pages b now l) \<Longrightarrow> guid p = guid l"
  by (auto simp: kept_pages_def scrape_page_def Let_def split: sum.splits if_splits)

lemma kept_pages_short: "length (kept_pages b now l) \<le> 1"
  by (auto simp: kept_pages_def scrape_page_def Let_def split: sum.splits if_splits)

lemma kept_all_guid:
  "p \<in> set (concat (map (kept_pages b now) ls)) \<Longrightarrow> \<exists>l \<in> set ls. p \<in> set (kept_pages b now l)"
  by auto

lemma kept_all_distinct:
  "distinct (map guid ls) \<Longrightarrow> distinct (map guid (concat (map (kept_pages b now) ls)))"
proof (induction ls)
  case Nil
  then show ?case by simp
next
  case (Cons l ls)
  have one: "distinct (map guid (kept_pages b now l))"
    using kept_pages_short [of b now l]
    by (cases "kept_pages b now l") (auto simp: le_Suc_eq)
  have "guid p \<noteq> guid p'"
    if "p \<in> set (kept_pages b now l)" "p' \<in> set (concat (map (kept_pages b now) ls))" for p p'
  proof -
    from that(2) obtain l' where "l' \<in> set ls" "p' \<in> set (kept_pages b now l')" by auto
    then have "guid p' = guid l'" "guid l' \<in> guid ` set ls" by (auto simp: kept_pages_guid)
    moreover from that(1) have "guid p = guid l" by (rule kept_pages_guid)
    moreover from Cons.prems have "guid l \<notin> guid ` set ls" by simp
    ultimately show ?thesis by auto
  qed
  then have "guid ` set (kept_pages b now l) \<inter> guid ` set (concat (map (kept_pages b now) ls)) = {}"
    by blast
  with one Cons show ?case by simp
qed

lemma map_of_foldl_write_other:
  "n \<notin> nm ` set ps \<Longrightarrow>
   map_of (foldl (\<lambda>d p. write_file (nm p) (F p) d) d ps) n = map_of d n"
  by (induction ps arbitrary: d) (simp_all add: map_of_write_file)

lemma map_of_foldl_write:
  "distinct (map nm ps) \<Longrightarrow> p \<in> set ps \<Longrightarrow>
   map_of (foldl (\<lambda>d p. write_file (nm p) (F p) d) d ps) (nm p) = Some (F p)"
proof (induction ps arbitrary: d)
  case Nil
  then show ?case by simp
next
  case (Cons q ps)
  show ?case
  proof (cases "p \<in> set ps")
    case True
    with Cons show ?thesis by simp
  next
    case False
    with Cons.prems have pq: "p = q" and "nm q \<notin> nm ` set ps" by auto
    then show ?thesis by (simp add: map_of_foldl_write_other map_of_write_file)
  qed
qed

lemma guid_file_not_index: "startswith g ''GUID-'' \<Longrightarrow> g @ ''.json'' \<noteq> ''index.json''"
  by (cases g) (auto simp: startswith_def)

text \<open>
  Claim C4, amended to the browser-driven orchestrator: in a run of
  \<open>AutodeskDocsScraper\<close> whose first navigation succeeds, a discovered page that loads
  and whose extracted content is longer than 50 characters is persisted, the run writing
  its record, with that content, to the file named by its identifier and listing it in the
  index; a page whose content has 50 characters or fewer is discarded, the run leaving the
  file of that name as it was and not listing the page. So a page of 49 characters is
  discarded and one of 51 characters is persisted.
\<close>

theorem run_persists_content_longer_than_50:
  assumes "goto b (BASE_URL @ ''?guid='' @ API_SECTION_GUID) = Inr start_page"
    and "link \<in> set (run_links b test_mode)"
    and "goto b (url link) = Inr page"
  shows "\<exists>d' fetches entries.
     run b test_mode now d = Inr (d', fetches)
     \<and> manifest_entries d' = Some entries
     \<and> (if 50 < length (extract_content page)
        then map_of d' (guid link @ ''.json'') =
               Some (PageFile
                 \<lparr>json_guid = Some (guid link), json_title = Some (title link),
                   json_url = Some (url link), json_raw_content = None,
                   json_content = Some (extract_content page), json_has_code_blocks = None,
                   json_scraped_at = Some now\<rparr>)
             \<and> guid link \<in> entry_guid ` set entries
        else map_of d' (guid link @ ''.json'') = map_of d (guid link @ ''.json'')
             \<and> guid link \<notin> entry_guid ` set entries)"
proof -
  define ls where "ls = run_links b test_mode"
  define start where "start = BASE_URL @ ''?guid='' @ API_SECTION_GUID"
  define st where "st = foldl (scrape_page b now) \<lparr>scraped_pages = [], fetched = [start]\<rparr> ls"
  define ps where "ps = scraped_pages st"
  define nm where "nm = (\<lambda>p::scraped_page. guid p @ ''.json'')"
  define F where "F = (\<lambda>p::scraped_page. PageFile
      \<lparr>json_guid = Some (guid p), json_title = Some (title p), json_url = Some (url p),
        json_raw_content = None, json_content = Some (content p), json_has_code_blocks = None,
        json_scraped_at = Some (scraped_at p)\<rparr>)"
  define E where "E = (\<lambda>p::scraped_page. \<lparr>entry_guid = guid p, entry_title = title p,
      entry_url = url p, entry_has_code_blocks = None, entry_content_length = None,
      entry_error = None\<rparr>)"
  define d' where "d' = save_results now ps d"
  have run: "run b test_mode now d = Inr (d', fetched st)"
    using assms(1)
    by (simp add: run_def Let_def d'_def ps_def st_def ls_def start_def run_links_def)
  have ps: "ps = concat (map (kept_pages b now) ls)"
    by (simp add: ps_def st_def foldl_scrape_page)
  have d'_eq: "d' = write_file ''index.json''
      (IndexFile \<lparr>index_source = None, total_pages = length ps, pages_scraped = None,
         index_scraped_at = now, index_pages = map E ps\<rparr>)
      (foldl (\<lambda>d p. write_file (nm p) (F p) d) d ps)"
    by (simp add: d'_def save_results_def nm_def F_def E_def)
  have m: "manifest_entries d' = Some (map E ps)"
    by (simp add: manifest_entries_def d'_eq map_of_write_file)
  have eg: "entry_guid ` set (map E ps) = guid ` set ps"
    by (auto simp: E_def image_iff)
  from assms(2) have pre: "startswith (guid link) ''GUID-''" by (rule run_links_prefix)
  have fl: "map_of d' (guid link @ ''.json'')
      = map_of (foldl (\<lambda>d p. write_file (nm p) (F p) d) d ps) (guid link @ ''.json'')"
    using guid_file_not_index [OF pre] by (simp add: d'_eq map_of_write_file)
  have dl: "distinct (map guid ls)" by (simp add: ls_def run_links_distinct)
  have dp: "distinct (map guid ps)" unfolding ps using dl by (rule kept_all_distinct)
  have "map nm ps = map (\<lambda>g. g @ ''.json'') (map guid ps)" by (simp add: nm_def)
  moreover have "inj_on (\<lambda>g::string. g @ ''.json'') (set (map guid ps))"
    by (rule inj_onI) simp
  ultimately have dn: "distinct (map nm ps)" using dp by (simp only: distinct_map)
  have kl: "kept_pages b now link =
     (if 50 < length (extract_content page)
      then [\<lparr>url = url link, title = title link, guid = guid link,
             content = extract_content page, scraped_at = now\<rparr>]
      else [])"
    using assms(3) by (rule kept_pages_loaded)
  show ?thesis
  proof (cases "50 < length (extract_content page)")
    case True
    let ?p = "\<lparr>url = url link, title = title link, guid = guid link,
               content = extract_content page, scraped_at = now\<rparr>"
    from True kl have "?p \<in> set (kept_pages b now link)" by simp
    with assms(2) have in_ps: "?p \<in> set ps" unfolding ps ls_def set_concat set_map by blast
    from map_of_foldl_write [OF dn in_ps, of F d]
    have "map_of d' (guid link @ ''.json'') = Some (F ?p)"
      by (simp add: fl nm_def)
    moreover have "guid link \<in> entry_guid ` set (map E ps)"
      unfolding eg using in_ps by force
    ultimately show ?thesis using True run m by (simp add: F_def)
  next
    case False
    have no: "guid link \<notin> guid ` set ps"
    proof
      assume "guid link \<in> guid ` set ps"
      then obtain p where p: "p \<in> set ps" "guid p = guid link" by auto
      then obtain l where l: "l \<in> set ls" "p \<in> set (kept_pages b now l)" by (auto simp: ps)
      then have "guid l = guid link" using p(2) by (simp add: kept_pages_guid)
      with dl l(1) assms(2) have "l = link"
        by (auto simp: ls_def distinct_map dest: inj_onD)
      with l(2) kl False show False by simp
    qed
    then have "guid link @ ''.json'' \<notin> nm ` set ps" by (auto simp: nm_def)
    from map_of_foldl_write_other [OF this, of F d]
    have "map_of d' (guid link @ ''.json'') = map_of d (guid link @ ''.json'')"
      by (simp add: fl)
    moreover from no have "guid link \<notin> entry_guid ` set (map E ps)" by (simp only: eg) simp
    ultimately show ?thesis using False run m by simp
  qed
qed

theorem run_persists_content_longer_than_50_witness:
  "(\<exists>d' fetches. run (browser_of_text (replicate 49 CHR ''a'')) False ''now'' [] = Inr (d', fetches)
      \<and> map_of d' ''GUID-A1.json'' = None \<and> manifest_entries d' = Some [])
   \<and> (\<exists>d' fetches. run (browser_of_text (replicate 51 CHR ''a'')) False ''now'' [] = Inr (d', fetches)
      \<and> map_of d' ''GUID-A1.json'' =
          Some (PageFile
            \<lparr>json_guid = Some ''GUID-A1'', json_title = Some ''One'',
              json_url = Some ''http://x/?guid=GUID-A1'', json_raw_content = None,
              json_content = Some (replicate 51 CHR ''a''), json_has_code_blocks = None,
              json_scraped_at = Some ''now''\<rparr>)
      \<and> map_option (map entry_guid) (manifest_entries d') = Some [''GUID-A1''])"
proof -
  let ?link = "\<lparr>url = ''http://x/?guid=GUID-A1'', title = ''One'', guid = ''GUID-A1''\<rparr>"
  have h1: "goto (browser_of_text t) (BASE_URL @ ''?guid='' @ API_SECTION_GUID) = Inr (page_with_fallback t)" for t
    by (simp add: browser_of_text_def)
  have h2: "?link \<in> set (run_links (browser_of_text t) False)" for t
    unfolding browser_of_text_def by code_simp
  have h3: "goto (browser_of_text t) (url ?link) = Inr (page_with_fallback t)" for t
    by (simp add: browser_of_text_def)
  have e49: "extract_content (page_with_fallback (replicate 49 CHR ''a'')) = replicate 49 CHR ''a''"
    by code_simp
  have e51: "extract_content (page_with_fallback (replicate 51 CHR ''a'')) = replicate 51 CHR ''a''"
    by code_simp
  have r49: "map_sum id (\<lambda>(d, f). manifest_entries d)
      (run (browser_of_text (replicate 49 CHR ''a'')) False ''now'' []) = Inr (Some [])"
    by code_simp
  have r51: "map_sum id (\<lambda>(d, f). map_option (map entry_guid) (manifest_entries d))
      (run (browser_of_text (replicate 51 CHR ''a'')) False ''now'' []) = Inr (Some [''GUID-A1''])"
    by code_simp
  from run_persists_content_longer_than_50 [OF h1 h2 h3, of "replicate 49 CHR ''a''" "''now''" "[]"] r49
  have a: "\<exists>d' fetches. run (browser_of_text (replicate 49 CHR ''a'')) False ''now'' [] = Inr (d', fetches)
      \<and> map_of d' ''GUID-A1.json'' = None \<and> manifest_entries d' = Some []"
    by (auto simp: e49)
  from run_persists_content_longer_than_50 [OF h1 h2 h3, of "replicate 51 CHR ''a''" "''now''" "[]"] r51
  have b: "\<exists>d' fetches. run (browser_of_text (replicate 51 CHR ''a'')) False ''now'' [] = Inr (d', fetches)
      \<and> map_of d' ''GUID-A1.json'' =
          Some (PageFile
            \<lparr>json_guid = Some ''GUID-A1'', json_title = Some ''One'',
              json_url = Some ''http://x/?guid=GUID-A1'', json_raw_content = None,
              json_content = Some (replicate 51 CHR ''a''), json_has_code_blocks = None,
              json_scraped_at = Some ''now''\<rparr>)
      \<and> map_option (map entry_guid) (manifest_entries d') = Some [''GUID-A1'']"
    by (auto simp: e51)
  from a b show ?thesis by blast
qed

end
